theory Spec2Isabelle
  imports Complex_Main "HOL-Library.Log_Nat"
begin

text \<open>
  A model of the GST-based dynamic pricing simulator, a single Streamlit script: the pricing
  calculation on Python floats, the GST table, the preset scenarios and the session history
  of saved recommendations, with the properties its specification states about them.
\<close>

section \<open>Python floats: IEEE 754 binary64 with round-to-nearest, ties-to-even\<close>

text \<open>
  Every number the script computes with is a Python \<^verbatim>\<open>float\<close>, so the arithmetic is
  modelled as it is executed: each operation returns the exact rational result rounded to
  the nearest double, ties to even, with gradual underflow, overflow to an infinity and
  NaN for the invalid operations. A finite double is represented by its exact rational
  value. The sign of zero is not represented: the script never divides by a zero (Python
  raises instead) and never inspects a sign bit, so both zeros behave as \<open>Fin 0\<close>.
\<close>

datatype double = Fin rat | PInf | NInf | NaN

text \<open>Rounding a rational to the nearest integer, ties to the even neighbour.\<close>

definition rhe :: "rat \<Rightarrow> int" where
  "rhe x = (let f = \<lfloor>x\<rfloor>; r = x - of_int f in
     if r < 1 / 2 then f else if 1 / 2 < r then f + 1 else if even f then f else f + 1)"

text \<open>The binary exponent \<open>\<lfloor>log\<^sub>2 x\<rfloor>\<close> of a positive rational, computed on integers.\<close>

definition ilog2 :: "rat \<Rightarrow> int" where
  "ilog2 x = (if 1 \<le> x then int (floorlog 2 (nat \<lfloor>x\<rfloor>)) - 1
              else - int (floorlog 2 (nat (\<lceil>1 / x\<rceil> - 1))))"

text \<open>
  The exponent of the binade a value is rounded in (never below the smallest normal
  exponent \<open>-1022\<close>, which is what makes underflow gradual), and the spacing of the doubles
  in that binade: 53 significant bits.
\<close>

definition expo :: "rat \<Rightarrow> int" where
  "expo x = max (ilog2 \<bar>x\<bar>) (- 1022)"

definition quantum :: "rat \<Rightarrow> rat" where
  "quantum x = 2 powi (expo x - 52)"

definition rnd :: "rat \<Rightarrow> rat" where
  "rnd x = of_int (rhe (x / quantum x)) * quantum x"

text \<open>Results of magnitude \<open>2\<^sup>1\<^sup>0\<^sup>2\<^sup>4\<close> or more after rounding overflow to an infinity.\<close>

definition huge :: rat where
  "huge = 2 ^ 1024"

definition round_double :: "rat \<Rightarrow> double" where
  "round_double x = (let y = rnd x in
     if huge \<le> y then PInf else if y \<le> - huge then NInf else Fin y)"

text \<open>The rationals that are finite doubles.\<close>

definition is_double :: "rat \<Rightarrow> bool" where
  "is_double x \<longleftrightarrow> rnd x = x \<and> \<bar>x\<bar> < huge"

subsection \<open>Python's numeric operations\<close>

datatype error = KeyError | ZeroDivisionError | OverflowError | AttributeError

text \<open>A Python number that may be an \<^verbatim>\<open>int\<close> or a \<^verbatim>\<open>float\<close> at run time.\<close>

datatype pynum = PyInt int | PyFloat double

definition ebind :: "error + 'a \<Rightarrow> ('a \<Rightarrow> error + 'b) \<Rightarrow> error + 'b" where
  "ebind m f = (case m of Inl e \<Rightarrow> Inl e | Inr x \<Rightarrow> f x)"

text \<open>A decimal float literal such as \<^verbatim>\<open>0.2\<close> denotes the double nearest to it.\<close>

definition float_lit :: "rat \<Rightarrow> double" where
  "float_lit x = round_double x"

text \<open>
  In mixed arithmetic Python converts the \<^verbatim>\<open>int\<close> operand to a \<^verbatim>\<open>float\<close>. The only
  integers converted in the script are the literals \<^verbatim>\<open>1\<close> and \<^verbatim>\<open>100\<close>, which are exact;
  the \<^verbatim>\<open>OverflowError\<close> of a conversion beyond the double range cannot arise for them.
\<close>

definition float_of_int :: "int \<Rightarrow> double" where
  "float_of_int i = round_double (of_int i)"

fun float_of :: "pynum \<Rightarrow> double" where
  "float_of (PyInt i) = float_of_int i"
| "float_of (PyFloat d) = d"

fun fadd :: "double \<Rightarrow> double \<Rightarrow> double" where
  "fadd (Fin a) (Fin b) = round_double (a + b)"
| "fadd NaN _ = NaN"
| "fadd _ NaN = NaN"
| "fadd PInf NInf = NaN"
| "fadd NInf PInf = NaN"
| "fadd PInf _ = PInf"
| "fadd _ PInf = PInf"
| "fadd NInf _ = NInf"
| "fadd _ NInf = NInf"

fun fsub :: "double \<Rightarrow> double \<Rightarrow> double" where
  "fsub (Fin a) (Fin b) = round_double (a - b)"
| "fsub NaN _ = NaN"
| "fsub _ NaN = NaN"
| "fsub PInf PInf = NaN"
| "fsub NInf NInf = NaN"
| "fsub PInf _ = PInf"
| "fsub _ NInf = PInf"
| "fsub NInf _ = NInf"
| "fsub _ PInf = NInf"

fun fmul :: "double \<Rightarrow> double \<Rightarrow> double" where
  "fmul (Fin a) (Fin b) = round_double (a * b)"
| "fmul NaN _ = NaN"
| "fmul _ NaN = NaN"
| "fmul (Fin a) PInf = (if a = 0 then NaN else if 0 < a then PInf else NInf)"
| "fmul (Fin a) NInf = (if a = 0 then NaN else if 0 < a then NInf else PInf)"
| "fmul PInf (Fin b) = (if b = 0 then NaN else if 0 < b then PInf else NInf)"
| "fmul NInf (Fin b) = (if b = 0 then NaN else if 0 < b then NInf else PInf)"
| "fmul PInf PInf = PInf"
| "fmul PInf NInf = NInf"
| "fmul NInf PInf = NInf"
| "fmul NInf NInf = PInf"

text \<open>
  \<^verbatim>\<open>a / b\<close> on floats raises \<^verbatim>\<open>ZeroDivisionError\<close> when the divisor is zero, whatever
  the dividend, and is the IEEE quotient otherwise.
\<close>

fun py_truediv :: "double \<Rightarrow> double \<Rightarrow> error + double" where
  "py_truediv a (Fin b) =
     (if b = 0 then Inl ZeroDivisionError
      else Inr (case a of
                  Fin x \<Rightarrow> round_double (x / b)
                | PInf \<Rightarrow> (if 0 < b then PInf else NInf)
                | NInf \<Rightarrow> (if 0 < b then NInf else PInf)
                | NaN \<Rightarrow> NaN))"
| "py_truediv a NaN = Inr NaN"
| "py_truediv (Fin x) _ = Inr (Fin 0)"
| "py_truediv _ _ = Inr NaN"

text \<open>
  \<^verbatim>\<open>a / b\<close> on two ints is the correctly rounded quotient; it raises
  \<^verbatim>\<open>ZeroDivisionError\<close> for a zero divisor and \<^verbatim>\<open>OverflowError\<close> when the quotient is
  beyond the double range.
\<close>

definition int_truediv :: "int \<Rightarrow> int \<Rightarrow> error + double" where
  "int_truediv a b =
     (if b = 0 then Inl ZeroDivisionError
      else case round_double (of_int a / of_int b) of
             Fin r \<Rightarrow> Inr (Fin r)
           | _ \<Rightarrow> Inl OverflowError)"

text \<open>
  Comparisons of a float with an int compare the exact values; every comparison with a
  NaN is false. \<open>fgt_int\<close> is \<^verbatim>\<open>d > i\<close>, \<open>fle_int\<close> is \<^verbatim>\<open>d <= i\<close>, and \<open>fle\<close> is
  \<^verbatim>\<open>a <= b\<close> on two floats.
\<close>

fun fgt_int :: "double \<Rightarrow> int \<Rightarrow> bool" where
  "fgt_int (Fin x) i = (of_int i < x)"
| "fgt_int PInf i = True"
| "fgt_int NInf i = False"
| "fgt_int NaN i = False"

fun fle_int :: "double \<Rightarrow> int \<Rightarrow> bool" where
  "fle_int (Fin x) i = (x \<le> of_int i)"
| "fle_int NInf i = True"
| "fle_int PInf i = False"
| "fle_int NaN i = False"

fun fle :: "double \<Rightarrow> double \<Rightarrow> bool" where
  "fle NaN _ = False"
| "fle _ NaN = False"
| "fle NInf _ = True"
| "fle _ PInf = True"
| "fle (Fin a) (Fin b) = (a \<le> b)"
| "fle _ _ = False"

text \<open>
  \<^verbatim>\<open>round(x, nd)\<close>: a float is rounded to \<open>nd\<close> decimals from its exact value, ties to
  even, and the decimal result is converted back to the nearest double; infinities and
  NaN are returned as they are; an int is returned unchanged for \<open>nd \<ge> 0\<close>.
\<close>

fun float_round :: "double \<Rightarrow> nat \<Rightarrow> error + double" where
  "float_round (Fin x) nd =
     (case round_double (of_int (rhe (x * 10 ^ nd)) / 10 ^ nd) of
        Fin r \<Rightarrow> Inr (Fin r)
      | _ \<Rightarrow> Inl OverflowError)"
| "float_round d nd = Inr d"

fun py_round :: "pynum \<Rightarrow> nat \<Rightarrow> error + pynum" where
  "py_round (PyInt i) nd = Inr (PyInt i)"
| "py_round (PyFloat d) nd = ebind (float_round d nd) (\<lambda>r. Inr (PyFloat r))"

section \<open>The pricing script\<close>

subsection \<open>The GST table\<close>

text \<open>
  \<^verbatim>\<open>gst_rates\<close> is a dict literal with six string keys, in this order. Two of the keys
  contain the rupee sign U+20B9, written here as its three UTF-8 bytes.
\<close>

definition rupee :: string where
  "rupee = [CHR 0xE2, CHR 0x82, CHR 0xB9]"

definition gst_rates :: "(string \<times> double) list" where
  "gst_rates =
     [(''Essentials'', float_lit 0),
      (''Food Items'', float_lit (5 / 100)),
      (''Apparel under '' @ rupee @ ''1,000'', float_lit (5 / 100)),
      (''Apparel above '' @ rupee @ ''1,000'', float_lit (12 / 100)),
      (''Electronics'', float_lit (18 / 100)),
      (''Luxury Goods'', float_lit (28 / 100))]"

text \<open>\<^verbatim>\<open>d[k]\<close> raises \<^verbatim>\<open>KeyError\<close> for a missing key.\<close>

definition dict_get :: "(string \<times> 'v) list \<Rightarrow> string \<Rightarrow> error + 'v" where
  "dict_get d k = (case map_of d k of None \<Rightarrow> Inl KeyError | Some v \<Rightarrow> Inr v)"

subsection \<open>The calculation\<close>

text \<open>The values the calculation reads, and the values it binds.\<close>

record pricing_input =
  category :: string
  competitor_price :: double
  demand :: int
  stock :: int
  seasonal :: bool
  discount :: int
  cost_price :: double

record breakdown =
  base_price :: double
  demand_factor :: double
  stock_factor :: double
  seasonal_factor :: pynum
  gst_rate :: double
  pre_gst_price :: double
  discount_amount :: double
  price_after_discount :: double
  gst_amount :: double
  final_price :: double
  profit :: double
  profit_margin :: pynum

text \<open>
  The block under \<^verbatim>\<open># Pricing calculation\<close>, statement by statement:
  \<^verbatim>\<open>
  base_price = competitor_price
  demand_factor = 1 + (demand / 100 * 0.2)
  stock_factor = 1 - (stock / 100 * 0.15)
  seasonal_factor = 1.1 if seasonal else 1
  gst_rate = gst_rates[category]
  pre_gst_price = base_price * demand_factor * stock_factor * seasonal_factor
  discount_amount = pre_gst_price * (discount / 100)
  price_after_discount = pre_gst_price - discount_amount
  gst_amount = price_after_discount * gst_rate
  final_price = price_after_discount + gst_amount
  profit = final_price - cost_price
  profit_margin = (profit / final_price) * 100 if final_price > 0 else 0
  \<close>
  \<^verbatim>\<open>demand\<close>, \<^verbatim>\<open>stock\<close> and \<^verbatim>\<open>discount\<close> are ints, so their quotients by \<^verbatim>\<open>100\<close> are int
  true divisions; \<^verbatim>\<open>seasonal_factor\<close> is the int \<^verbatim>\<open>1\<close> or the float \<^verbatim>\<open>1.1\<close>, and
  \<^verbatim>\<open>profit_margin\<close> a float or the int \<^verbatim>\<open>0\<close>.
\<close>

definition pricing :: "pricing_input \<Rightarrow> error + breakdown" where
  "pricing inp =
     (let base_price = competitor_price inp in
      ebind (int_truediv (demand inp) 100) (\<lambda>dq.
      let demand_factor = fadd (float_of_int 1) (fmul dq (float_lit (2 / 10))) in
      ebind (int_truediv (stock inp) 100) (\<lambda>sq.
      let stock_factor = fsub (float_of_int 1) (fmul sq (float_lit (15 / 100)));
          seasonal_factor = (if seasonal inp then PyFloat (float_lit (11 / 10)) else PyInt 1) in
      ebind (dict_get gst_rates (category inp)) (\<lambda>gst_rate.
      let pre_gst_price =
            fmul (fmul (fmul base_price demand_factor) stock_factor) (float_of seasonal_factor) in
      ebind (int_truediv (discount inp) 100) (\<lambda>cq.
      let discount_amount = fmul pre_gst_price cq;
          price_after_discount = fsub pre_gst_price discount_amount;
          gst_amount = fmul price_after_discount gst_rate;
          final_price = fadd price_after_discount gst_amount;
          profit = fsub final_price (cost_price inp) in
      ebind (if fgt_int final_price 0
             then ebind (py_truediv profit final_price)
                    (\<lambda>q. Inr (PyFloat (fmul q (float_of_int 100))))
             else Inr (PyInt 0)) (\<lambda>profit_margin.
      Inr \<lparr>base_price = base_price, demand_factor = demand_factor,
           stock_factor = stock_factor, seasonal_factor = seasonal_factor,
           gst_rate = gst_rate, pre_gst_price = pre_gst_price,
           discount_amount = discount_amount,
           price_after_discount = price_after_discount, gst_amount = gst_amount,
           final_price = final_price, profit = profit,
           profit_margin = profit_margin\<rparr>))))))"

subsection \<open>Widgets, scenarios and the session history\<close>

text \<open>
  One run of the script reads the sidebar widgets. The radio button selects a scenario;
  the three presets fix demand, stock, the seasonal flag and the discount, and only the
  custom scenario reads the sliders and the checkbox.
\<close>

record widgets =
  product_name :: string
  category_box :: string
  competitor_price_box :: double
  scenario :: string
  demand_slider :: int
  stock_slider :: int
  seasonal_checkbox :: bool
  discount_slider :: int
  cost_price_box :: double
  save_button :: bool

definition scenario_settings :: "widgets \<Rightarrow> int \<times> int \<times> bool \<times> int" where
  "scenario_settings w =
     (if scenario w = ''High Demand, Low Stock'' then (90, 20, False, 0)
      else if scenario w = ''Clearance Sale'' then (40, 80, False, 30)
      else if scenario w = ''Festive Boost'' then (70, 50, True, 10)
      else (demand_slider w, stock_slider w, seasonal_checkbox w, discount_slider w))"

definition pricing_input_of :: "widgets \<Rightarrow> pricing_input" where
  "pricing_input_of w =
     (case scenario_settings w of
        (dm, sk, ss, dc) \<Rightarrow>
          \<lparr>category = category_box w, competitor_price = competitor_price_box w,
           demand = dm, stock = sk, seasonal = ss, discount = dc,
           cost_price = cost_price_box w\<rparr>)"

text \<open>
  A saved recommendation is a dict with the keys \<^verbatim>\<open>Product\<close>, \<^verbatim>\<open>Category\<close>,
  \<^verbatim>\<open>Final Price\<close> and \<^verbatim>\<open>Profit Margin %\<close>. The session state holds the list
  \<^verbatim>\<open>history\<close>, or has no such key yet on the first run.
\<close>

record entry =
  entry_product :: string
  entry_category :: string
  entry_final_price :: pynum
  entry_profit_margin :: pynum

record session_state =
  history :: "entry list option"

text \<open>
  \<^verbatim>\<open>
  if "history" not in st.session_state:
      st.session_state.history = []
  \<close>
\<close>

definition init_history :: "session_state \<Rightarrow> session_state" where
  "init_history st = (if history st = None then st\<lparr>history := Some []\<rparr> else st)"

text \<open>
  \<^verbatim>\<open>st.session_state.history.append(e)\<close> and the read of \<^verbatim>\<open>st.session_state.history\<close>;
  both raise \<^verbatim>\<open>AttributeError\<close> when the key is missing.
\<close>

definition history_append :: "session_state \<Rightarrow> entry \<Rightarrow> error + session_state" where
  "history_append st e =
     (case history st of
        None \<Rightarrow> Inl AttributeError
      | Some h \<Rightarrow> Inr (st\<lparr>history := Some (h @ [e])\<rparr>))"

definition history_read :: "session_state \<Rightarrow> error + entry list" where
  "history_read st = (case history st of None \<Rightarrow> Inl AttributeError | Some h \<Rightarrow> Inr h)"

text \<open>
  The body of \<^verbatim>\<open>if st.sidebar.button("Save Recommendation")\<close>: the dict is built, its
  values evaluated in order, and appended.
\<close>

definition save_recommendation :: "session_state \<Rightarrow> widgets \<Rightarrow> breakdown \<Rightarrow> error + session_state" where
  "save_recommendation st w b =
     ebind (py_round (PyFloat (final_price b)) 2) (\<lambda>fp.
     ebind (py_round (profit_margin b) 2) (\<lambda>pm.
     history_append st
       \<lparr>entry_product = product_name w, entry_category = category_box w,
        entry_final_price = fp, entry_profit_margin = pm\<rparr>))"

text \<open>
  One run of the script: the session state after the run, and the breakdown it displays or
  the exception that ended it. Assignments to the session state made before an exception
  persist.
\<close>

definition run_script :: "session_state \<Rightarrow> widgets \<Rightarrow> session_state \<times> (error + breakdown)" where
  "run_script st w =
     (let st1 = init_history st in
      case pricing (pricing_input_of w) of
        Inl e \<Rightarrow> (st1, Inl e)
      | Inr b \<Rightarrow>
          if save_button w
          then (case save_recommendation st1 w b of
                  Inl e \<Rightarrow> (st1, Inl e)
                | Inr st2 \<Rightarrow> (st2, Inr b))
          else (st1, Inr b))"

section \<open>Derived quantities used in the proofs\<close>

text \<open>
  The quotient \<^verbatim>\<open>n / 100\<close> of an int, and the demand, stock and seasonal factors as
  rationals: the values the corresponding statements of the script compute when their
  inputs are in range.
\<close>

definition quot100 :: "int \<Rightarrow> rat" where
  "quot100 d = rnd (of_int d / 100)"

definition dfr :: "int \<Rightarrow> rat" where
  "dfr d = rnd (1 + rnd (quot100 d * rnd (2 / 10)))"

definition sfr :: "int \<Rightarrow> rat" where
  "sfr s = rnd (1 - rnd (quot100 s * rnd (15 / 100)))"

definition ssr :: "bool \<Rightarrow> rat" where
  "ssr b = (if b then rnd (11 / 10) else 1)"

text \<open>The right-hand side of the \<^verbatim>\<open>profit_margin\<close> statement.\<close>

definition margin_expr :: "double \<Rightarrow> double \<Rightarrow> error + pynum" where
  "margin_expr p f =
     (if fgt_int f 0
      then ebind (py_truediv p f) (\<lambda>q. Inr (PyFloat (fmul q (float_of_int 100))))
      else Inr (PyInt 0))"

text \<open>The statements after the three quotients and the table lookup, given their results.\<close>

definition pre_g :: "double \<Rightarrow> double \<Rightarrow> double \<Rightarrow> bool \<Rightarrow> double" where
  "pre_g cp dq sq seas =
     fmul (fmul (fmul cp (fadd (float_of_int 1) (fmul dq (float_lit (2 / 10)))))
                (fsub (float_of_int 1) (fmul sq (float_lit (15 / 100)))))
          (float_of (if seas then PyFloat (float_lit (11 / 10)) else PyInt 1))"

definition fin_g :: "double \<Rightarrow> double \<Rightarrow> double \<Rightarrow> double" where
  "fin_g pre cq r = fadd (fsub pre (fmul pre cq)) (fmul (fsub pre (fmul pre cq)) r)"

definition bd_g ::
  "pricing_input \<Rightarrow> double \<Rightarrow> double \<Rightarrow> double \<Rightarrow> double \<Rightarrow> pynum \<Rightarrow> breakdown" where
  "bd_g inp dq sq r cq pm =
     \<lparr>base_price = competitor_price inp,
      demand_factor = fadd (float_of_int 1) (fmul dq (float_lit (2 / 10))),
      stock_factor = fsub (float_of_int 1) (fmul sq (float_lit (15 / 100))),
      seasonal_factor = (if seasonal inp then PyFloat (float_lit (11 / 10)) else PyInt 1),
      gst_rate = r,
      pre_gst_price = pre_g (competitor_price inp) dq sq (seasonal inp),
      discount_amount = fmul (pre_g (competitor_price inp) dq sq (seasonal inp)) cq,
      price_after_discount =
        fsub (pre_g (competitor_price inp) dq sq (seasonal inp))
             (fmul (pre_g (competitor_price inp) dq sq (seasonal inp)) cq),
      gst_amount =
        fmul (fsub (pre_g (competitor_price inp) dq sq (seasonal inp))
                   (fmul (pre_g (competitor_price inp) dq sq (seasonal inp)) cq)) r,
      final_price = fin_g (pre_g (competitor_price inp) dq sq (seasonal inp)) cq r,
      profit = fsub (fin_g (pre_g (competitor_price inp) dq sq (seasonal inp)) cq r)
                    (cost_price inp),
      profit_margin = pm\<rparr>"

text \<open>The same statements for inputs in range, where the three factors are finite.\<close>

definition pre_of :: "pricing_input \<Rightarrow> double" where
  "pre_of inp =
     fmul (fmul (fmul (competitor_price inp) (Fin (dfr (demand inp)))) (Fin (sfr (stock inp))))
       (Fin (ssr (seasonal inp)))"

definition disc_of :: "pricing_input \<Rightarrow> double" where
  "disc_of inp = fmul (pre_of inp) (Fin (quot100 (discount inp)))"

definition pad_of :: "pricing_input \<Rightarrow> double" where
  "pad_of inp = fsub (pre_of inp) (disc_of inp)"

definition gst_of :: "pricing_input \<Rightarrow> double \<Rightarrow> double" where
  "gst_of inp r = fmul (pad_of inp) r"

definition final_of :: "pricing_input \<Rightarrow> double \<Rightarrow> double" where
  "final_of inp r = fadd (pad_of inp) (gst_of inp r)"

definition profit_of :: "pricing_input \<Rightarrow> double \<Rightarrow> double" where
  "profit_of inp r = fsub (final_of inp r) (cost_price inp)"

definition bd_of :: "pricing_input \<Rightarrow> double \<Rightarrow> pynum \<Rightarrow> breakdown" where
  "bd_of inp r pm =
     \<lparr>base_price = competitor_price inp, demand_factor = Fin (dfr (demand inp)),
      stock_factor = Fin (sfr (stock inp)),
      seasonal_factor = (if seasonal inp then PyFloat (float_lit (11 / 10)) else PyInt 1),
      gst_rate = r, pre_gst_price = pre_of inp, discount_amount = disc_of inp,
      price_after_discount = pad_of inp, gst_amount = gst_of inp r,
      final_price = final_of inp r, profit = profit_of inp r, profit_margin = pm\<rparr>"

section \<open>The input domain\<close>

text \<open>
  The sliders deliver ints in \<open>[0, 100]\<close> (demand, stock) and \<open>[0, 50]\<close> (discount), and the
  presets stay inside these ranges. The two number inputs deliver finite doubles, the
  competitor price positive and the cost price not negative, and the select box delivers a
  key of the table.
\<close>

definition in_range :: "pricing_input \<Rightarrow> bool" where
  "in_range inp \<longleftrightarrow>
     0 \<le> demand inp \<and> demand inp \<le> 100 \<and> 0 \<le> stock inp \<and> stock inp \<le> 100 \<and>
     0 \<le> discount inp \<and> discount inp \<le> 50"

definition valid_input :: "pricing_input \<Rightarrow> bool" where
  "valid_input inp \<longleftrightarrow>
     (case competitor_price inp of Fin c \<Rightarrow> 0 < c \<and> is_double c | _ \<Rightarrow> False) \<and>
     (case cost_price inp of Fin k \<Rightarrow> 0 \<le> k \<and> is_double k | _ \<Rightarrow> False) \<and>
     in_range inp \<and> category inp \<in> set (map fst gst_rates)"

text \<open>A double is finite when it is neither an infinity nor a NaN.\<close>

fun is_finite :: "double \<Rightarrow> bool" where
  "is_finite (Fin x) = True"
| "is_finite _ = False"


text \<open>The smallest positive double, \<open>2\<^sup>-\<^sup>1\<^sup>0\<^sup>7\<^sup>4\<close>; every double is a multiple of it.\<close>

definition tiny :: rat where
  "tiny = 2 powi (- 1074)"

text \<open>A finite double within a given distance of a rational.\<close>

fun close_to :: "double \<Rightarrow> rat \<Rightarrow> rat \<Rightarrow> bool" where
  "close_to (Fin x) y e = (\<bar>x - y\<bar> \<le> e)"
| "close_to _ y e = False"

text \<open>The contents of the history before a run; empty when the key is not there yet.\<close>

definition prior :: "session_state \<Rightarrow> entry list" where
  "prior st = (case history st of None \<Rightarrow> [] | Some h \<Rightarrow> h)"

section \<open>Concrete inputs\<close>

text \<open>
  The two scenarios of the specification with the breakdowns the calculation returns for
  them, the widget states that produce them, an input whose pre-discount price overflows,
  and an input with a competitor price of 0, below what the number input admits, on which
  the final price is not positive.
\<close>

definition scenario1 :: pricing_input where
  "scenario1 = \<lparr>category = ''Electronics'', competitor_price = Fin 100, demand = 50, stock = 50,
     seasonal = False, discount = 0, cost_price = Fin 50\<rparr>"

definition scenario1_breakdown :: breakdown where
  "scenario1_breakdown =
     \<lparr>base_price = Fin 100,
      demand_factor = Fin (2476979795053773 / 2251799813685248),
      stock_factor = Fin (4165829655317709 / 4503599627370496),
      seasonal_factor = PyInt 1,
      gst_rate = Fin (3242591731706757 / 18014398509481984),
      pre_gst_price = Fin (7160019720077313 / 70368744177664),
      discount_amount = Fin 0,
      price_after_discount = Fin (7160019720077313 / 70368744177664),
      gst_amount = Fin (5155214198455665 / 281474976710656),
      final_price = Fin (8448823269691229 / 70368744177664),
      profit = Fin (4930386060808029 / 70368744177664),
      profit_margin = PyFloat (Fin (128325960438305 / 2199023255552))\<rparr>"

definition scenario1_widgets :: widgets where
  "scenario1_widgets =
     \<lparr>product_name = ''Radio'', category_box = ''Electronics'', competitor_price_box = Fin 100,
      scenario = ''Custom'', demand_slider = 50, stock_slider = 50,
      seasonal_checkbox = False, discount_slider = 0, cost_price_box = Fin 50,
      save_button = True\<rparr>"

definition scenario1_entry :: entry where
  "scenario1_entry =
     \<lparr>entry_product = ''Radio'', entry_category = ''Electronics'',
      entry_final_price = PyFloat (Fin (2112293778353029 / 17592186044416)),
      entry_profit_margin = PyFloat (Fin (4106719910208471 / 70368744177664))\<rparr>"

definition scenario2 :: pricing_input where
  "scenario2 = \<lparr>category = ''Essentials'', competitor_price = Fin 200, demand = 40, stock = 80,
     seasonal = False, discount = 30, cost_price = Fin 100\<rparr>"

definition scenario2_breakdown :: breakdown where
  "scenario2_breakdown =
     \<lparr>base_price = Fin 200,
      demand_factor = Fin (607985949695017 / 562949953421312),
      stock_factor = Fin (7926335344172073 / 9007199254740992),
      seasonal_factor = PyInt 1,
      gst_rate = Fin 0,
      pre_gst_price = Fin (6687845446645187 / 35184372088832),
      discount_amount = Fin (501588408498389 / 8796093022208),
      price_after_discount = Fin (4681491812651631 / 35184372088832),
      gst_amount = Fin 0,
      final_price = Fin (4681491812651631 / 35184372088832),
      profit = Fin (1163054603768431 / 35184372088832),
      profit_margin = PyFloat (Fin (6992872798030489 / 281474976710656))\<rparr>"

definition clearance_widgets :: widgets where
  "clearance_widgets =
     \<lparr>product_name = ''Kettle'', category_box = ''Essentials'', competitor_price_box = Fin 200,
      scenario = ''Clearance Sale'', demand_slider = 50, stock_slider = 50,
      seasonal_checkbox = True, discount_slider = 0, cost_price_box = Fin 100,
      save_button = False\<rparr>"

definition overflow_input :: pricing_input where
  "overflow_input = \<lparr>category = ''Essentials'', competitor_price = Fin (7 * 2 ^ 1021),
     demand = 100, stock = 0, seasonal = False, discount = 0, cost_price = Fin 0\<rparr>"

definition overflow_breakdown :: breakdown where
  "overflow_breakdown =
     \<lparr>base_price = Fin (7 * 2 ^ 1021),
      demand_factor = Fin (5404319552844595 / 4503599627370496),
      stock_factor = Fin 1,
      seasonal_factor = PyInt 1,
      gst_rate = Fin 0,
      pre_gst_price = PInf,
      discount_amount = NaN,
      price_after_discount = NaN,
      gst_amount = NaN,
      final_price = NaN,
      profit = NaN,
      profit_margin = PyInt 0\<rparr>"

definition zero_price_input :: pricing_input where
  "zero_price_input = \<lparr>category = ''Electronics'', competitor_price = Fin 0, demand = 50,
     stock = 50, seasonal = False, discount = 0, cost_price = Fin 50\<rparr>"

definition zero_price_breakdown :: breakdown where
  "zero_price_breakdown =
     \<lparr>base_price = Fin 0,
      demand_factor = Fin (2476979795053773 / 2251799813685248),
      stock_factor = Fin (4165829655317709 / 4503599627370496),
      seasonal_factor = PyInt 1,
      gst_rate = Fin (3242591731706757 / 18014398509481984),
      pre_gst_price = Fin 0, discount_amount = Fin 0, price_after_discount = Fin 0,
      gst_amount = Fin 0, final_price = Fin 0, profit = Fin (- 50),
      profit_margin = PyInt 0\<rparr>"

section \<open>Rounding to the nearest double\<close>

text \<open>
  Rounding to an integer is exact on integers, off by at most a half, and monotone.
\<close>

lemma rhe_of_int: "rhe (of_int n) = n"
  by (simp add: rhe_def)

lemma rhe_cases:
  "rhe x = \<lfloor>x\<rfloor> \<or> rhe x = \<lfloor>x\<rfloor> + 1"
  by (simp add: rhe_def Let_def)

lemma rhe_err: "\<bar>of_int (rhe x) - x\<bar> \<le> 1/2"
proof -
  have "of_int \<lfloor>x\<rfloor> \<le> x" "x < of_int \<lfloor>x\<rfloor> + 1" by linarith+
  then show ?thesis
    by (auto simp: rhe_def Let_def abs_le_iff)
qed

lemma rhe_mono: assumes "x \<le> y" shows "rhe x \<le> rhe y"
proof (cases "\<lfloor>x\<rfloor> = \<lfloor>y\<rfloor>")
  case True
  with assms show ?thesis by (auto simp: rhe_def Let_def)
next
  case False
  with assms have lt: "\<lfloor>x\<rfloor> + 1 \<le> \<lfloor>y\<rfloor>"
    using floor_mono[OF assms] by linarith
  have "rhe x \<le> \<lfloor>x\<rfloor> + 1" using rhe_cases[of x] by auto
  moreover have "\<lfloor>y\<rfloor> \<le> rhe y" using rhe_cases[of y] by auto
  ultimately show ?thesis using lt by linarith
qed

lemma rhe_ge: "of_int n \<le> x \<Longrightarrow> n \<le> rhe x"
  using rhe_mono[of "of_int n" x] by (simp add: rhe_of_int)

lemma rhe_le: "x \<le> of_int n \<Longrightarrow> rhe x \<le> n"
  using rhe_mono[of x "of_int n"] by (simp add: rhe_of_int)

text \<open>
  \<open>ilog2\<close> is the binary exponent: a positive \<open>x\<close> lies in \<open>[2\<^sup>e, 2\<^sup>e\<^sup>+\<^sup>1)\<close> exactly for
  \<open>e = ilog2 x\<close>.
\<close>

lemma ilog2_bounds:
  assumes "0 < x"
  shows "2 powi (ilog2 x) \<le> x" and "x < 2 powi (ilog2 x + 1)"
proof -
  have both: "2 powi (ilog2 x) \<le> x \<and> x < 2 powi (ilog2 x + 1)"
  proof (cases "1 \<le> x")
    case True
    define n where "n = nat \<lfloor>x\<rfloor>"
    have n1: "0 < n" using True by (simp add: n_def)
    have fl: "2 ^ (floorlog 2 n - 1) \<le> n" "n < 2 ^ floorlog 2 n"
      using floorlog_bounds[of n 2] n1 by auto
    have fpos: "0 < floorlog 2 n" using n1 by (simp add: floorlog_def)
    have e: "ilog2 x = int (floorlog 2 n - 1)" using True fpos by (simp add: ilog2_def n_def)
    have nx: "of_nat n \<le> x" "x < of_nat n + 1"
      using True by (simp_all add: n_def) linarith+
    have "(2::rat) ^ (floorlog 2 n - 1) \<le> of_nat n"
      using fl(1) by (metis of_nat_le_iff of_nat_numeral of_nat_power)
    then have "(2::rat) ^ (floorlog 2 n - 1) \<le> x" using nx(1) by (rule order_trans)
    then have a: "2 powi (ilog2 x) \<le> x" unfolding e by simp
    have "n + 1 \<le> 2 ^ floorlog 2 n" using fl(2) by simp
    then have "(of_nat (n + 1) :: rat) \<le> of_nat (2 ^ floorlog 2 n)"
      using of_nat_le_iff by blast
    then have "of_nat n + 1 \<le> (2::rat) ^ floorlog 2 n" by simp
    with nx(2) have "x < 2 ^ floorlog 2 n" by (rule less_le_trans)
    moreover have "ilog2 x + 1 = int (floorlog 2 n)" using e fpos by simp
    ultimately have "x < 2 powi (ilog2 x + 1)" by simp
    with a show ?thesis by simp
  next
    case False
    define y where "y = 1 / x"
    define k where "k = nat (\<lceil>y\<rceil> - 1)"
    have y1: "1 < y" using False assms by (simp add: y_def)
    have k1: "0 < k" using y1 by (simp add: k_def)
    have ky: "of_nat k < y" "y \<le> of_nat k + 1"
      using y1 by (simp_all add: k_def) linarith+
    have fl: "2 ^ (floorlog 2 k - 1) \<le> k" "k < 2 ^ floorlog 2 k"
      using floorlog_bounds[of k 2] k1 by auto
    have fpos: "0 < floorlog 2 k" using k1 by (simp add: floorlog_def)
    have e: "ilog2 x = - int (floorlog 2 k)" using False by (simp add: ilog2_def k_def y_def)
    have "k + 1 \<le> 2 ^ floorlog 2 k" using fl(2) by simp
    then have "(of_nat (k + 1) :: rat) \<le> of_nat (2 ^ floorlog 2 k)"
      using of_nat_le_iff by blast
    then have "of_nat k + 1 \<le> (2::rat) ^ floorlog 2 k" by simp
    with ky(2) have "y \<le> 2 ^ floorlog 2 k" by (rule order_trans)
    then have "1 / 2 ^ floorlog 2 k \<le> x"
      using assms by (simp add: y_def field_simps)
    then have a: "2 powi (ilog2 x) \<le> x"
      by (simp add: e power_int_minus_divide)
    have "(2::rat) ^ (floorlog 2 k - 1) \<le> of_nat k"
      using fl(1) by (metis of_nat_le_iff of_nat_numeral of_nat_power)
    then have "2 ^ (floorlog 2 k - 1) < y" using ky(1) by (rule le_less_trans)
    then have "x < 1 / 2 ^ (floorlog 2 k - 1)"
      using assms by (simp add: y_def field_simps)
    moreover have "ilog2 x + 1 = - int (floorlog 2 k - 1)" using e fpos by simp
    ultimately have "x < 2 powi (ilog2 x + 1)"
      by (simp add: power_int_minus_divide)
    with a show ?thesis by simp
  qed
  from both show "2 powi (ilog2 x) \<le> x" and "x < 2 powi (ilog2 x + 1)" by simp_all
qed

lemma quantum_expo: "quantum x = 2 powi (expo x - 52)"
  by (simp add: quantum_def)

lemma quantum_pos: "0 < quantum x"
  by (simp add: quantum_def)

lemma ilog2_unique:
  assumes "0 < x" "2 powi e \<le> x" "x < 2 powi (e + 1)"
  shows "ilog2 x = e"
proof (rule antisym)
  have "(2::rat) powi (ilog2 x) < 2 powi (e + 1)"
    using ilog2_bounds(1)[OF assms(1)] assms(3) by (rule le_less_trans)
  then have "ilog2 x < e + 1"
    using power_int_increasing[of "e + 1" "ilog2 x" "2::rat"] by (cases "ilog2 x < e + 1") auto
  then show "ilog2 x \<le> e" by simp
  have "(2::rat) powi e < 2 powi (ilog2 x + 1)"
    using assms(2) ilog2_bounds(2)[OF assms(1)] by (rule le_less_trans)
  then have "e < ilog2 x + 1"
    using power_int_increasing[of "ilog2 x + 1" e "2::rat"] by (cases "e < ilog2 x + 1") auto
  then show "e \<le> ilog2 x" by simp
qed

lemma ilog2_mono:
  assumes "0 < x" "x \<le> y"
  shows "ilog2 x \<le> ilog2 y"
proof -
  have y: "0 < y" using assms by simp
  have "(2::rat) powi (ilog2 x) < 2 powi (ilog2 y + 1)"
    using ilog2_bounds(1)[OF assms(1)] assms(2) ilog2_bounds(2)[OF y] by linarith
  then have "ilog2 x < ilog2 y + 1"
    using power_int_increasing[of "ilog2 y + 1" "ilog2 x" "2::rat"]
    by (cases "ilog2 x < ilog2 y + 1") auto
  then show ?thesis by simp
qed

lemma expo_mono: "0 < x \<Longrightarrow> x \<le> y \<Longrightarrow> expo x \<le> expo y"
  using ilog2_mono[of x y] by (simp add: expo_def)

lemma expo_ge: "- 1022 \<le> expo x"
  by (simp add: expo_def)

lemma expo_upper: assumes "0 < x" shows "x < 2 powi (expo x + 1)"
proof -
  have "x < 2 powi (ilog2 x + 1)" using ilog2_bounds(2)[OF assms] .
  also have "\<dots> \<le> 2 powi (expo x + 1)"
    using assms by (intro power_int_increasing) (simp_all add: expo_def)
  finally show ?thesis .
qed

lemma expo_lower: assumes "2 powi (- 1022) \<le> x" shows "2 powi (expo x) \<le> x"
proof -
  have x: "0 < x" using assms zero_less_power_int[of "2::rat" "- 1022"] by linarith
  show ?thesis
  proof (cases "- 1022 \<le> ilog2 x")
    case True
    then have "expo x = ilog2 x" using x by (simp add: expo_def)
    then show ?thesis using ilog2_bounds(1)[OF x] by simp
  next
    case False
    then have "expo x = - 1022" using x by (simp add: expo_def)
    then show ?thesis using assms by simp
  qed
qed

lemma expo_eqI:
  assumes "- 1022 \<le> e" "2 powi e \<le> \<bar>x\<bar>" "\<bar>x\<bar> < 2 powi (e + 1)"
  shows "expo x = e"
proof -
  have "0 < \<bar>x\<bar>" using assms(2) zero_less_power_int[of "2::rat" e] by linarith
  then have "ilog2 \<bar>x\<bar> = e" using assms(2,3) by (rule ilog2_unique)
  then show ?thesis using assms(1) by (simp add: expo_def)
qed

lemma expo_subnormal:
  assumes "x \<noteq> 0" "\<bar>x\<bar> < 2 powi (- 1022)"
  shows "expo x = - 1022"
proof -
  from assms(1) have p: "0 < \<bar>x\<bar>" by simp
  have "(2::rat) powi (ilog2 \<bar>x\<bar>) < 2 powi (- 1022)"
    using ilog2_bounds(1)[OF p] assms(2) by (rule le_less_trans)
  then have "ilog2 \<bar>x\<bar> < - 1022"
    using power_int_increasing[of "- 1022" "ilog2 \<bar>x\<bar>" "2::rat"]
    by (cases "ilog2 \<bar>x\<bar> < - 1022") auto
  then show ?thesis by (simp add: expo_def)
qed

text \<open>
  Rounding to a double preserves zero and the sign, is monotone on the non-negative
  rationals, moves a value by at most half the spacing of its binade, and leaves every
  \<open>n * 2\<^sup>k\<close> with \<open>n \<le> 2\<^sup>5\<^sup>3\<close> and \<open>k \<ge> -1074\<close> unchanged; so rounding is idempotent.
\<close>

lemma rnd_0: "rnd 0 = 0"
  by (simp add: rnd_def rhe_def)

lemma rnd_nonneg: assumes "0 \<le> x" shows "0 \<le> rnd x"
proof -
  have "0 \<le> x / quantum x" using assms quantum_pos[of x] by simp
  then have "0 \<le> rhe (x / quantum x)" using rhe_ge[of 0] by simp
  then show ?thesis using quantum_pos[of x] by (simp add: rnd_def)
qed

lemma rnd_upper: assumes "0 < x" shows "rnd x \<le> 2 powi (expo x + 1)"
proof -
  have q: "0 < quantum x" by (rule quantum_pos)
  have "(2::rat) powi (53 + (expo x - 52)) = 2 powi 53 * 2 powi (expo x - 52)"
    by (rule power_int_add) simp
  then have e: "2 powi (expo x + 1) = 2 ^ 53 * quantum x" by (simp add: quantum_expo add.commute)
  have "x / quantum x \<le> 2 ^ 53"
    using expo_upper[OF assms] q unfolding e by (simp add: field_simps)
  then have "x / quantum x \<le> of_int (2 ^ 53)" by simp
  then have "rhe (x / quantum x) \<le> 2 ^ 53" by (rule rhe_le)
  then have "(of_int (rhe (x / quantum x)) :: rat) \<le> of_int (2 ^ 53)"
    using of_int_le_iff by blast
  then have "of_int (rhe (x / quantum x)) * quantum x \<le> 2 ^ 53 * quantum x"
    using q by simp
  then show ?thesis unfolding e rnd_def .
qed

lemma rnd_lower: assumes "2 powi (- 1022) \<le> x" shows "2 powi (expo x) \<le> rnd x"
proof -
  have q: "0 < quantum x" by (rule quantum_pos)
  have "(2::rat) powi (52 + (expo x - 52)) = 2 powi 52 * 2 powi (expo x - 52)"
    by (rule power_int_add) simp
  then have e: "2 powi (expo x) = 2 ^ 52 * quantum x" by (simp add: quantum_expo)
  have "2 ^ 52 \<le> x / quantum x"
    using expo_lower[OF assms] q unfolding e by (simp add: field_simps)
  then have "of_int (2 ^ 52) \<le> x / quantum x" by simp
  then have "2 ^ 52 \<le> rhe (x / quantum x)" by (rule rhe_ge)
  then have "(of_int (2 ^ 52) :: rat) \<le> of_int (rhe (x / quantum x))"
    using of_int_le_iff by blast
  then have "2 ^ 52 * quantum x \<le> of_int (rhe (x / quantum x)) * quantum x"
    using q by simp
  then show ?thesis unfolding e rnd_def .
qed

lemma rnd_mono_pos: assumes "0 < x" "x \<le> y" shows "rnd x \<le> rnd y"
proof (cases "expo x = expo y")
  case True
  then have q: "quantum x = quantum y" by (simp add: quantum_expo)
  have "x / quantum y \<le> y / quantum y"
    using assms(2) quantum_pos[of y] by (simp add: divide_right_mono)
  then have "rhe (x / quantum y) \<le> rhe (y / quantum y)" by (rule rhe_mono)
  then have "(of_int (rhe (x / quantum y)) :: rat) \<le> of_int (rhe (y / quantum y))"
    using of_int_le_iff by blast
  then show ?thesis using quantum_pos[of y] by (simp add: rnd_def q)
next
  case False
  with expo_mono[OF assms] have lt: "expo x + 1 \<le> expo y" by simp
  have "- 1022 < expo y" using lt expo_ge[of x] by linarith
  then have n: "2 powi (- 1022) \<le> y"
    using expo_subnormal[of y] assms by (cases "2 powi (- 1022) \<le> y") auto
  have "rnd x \<le> 2 powi (expo x + 1)" using assms(1) by (rule rnd_upper)
  also have "\<dots> \<le> 2 powi (expo y)" using lt by (intro power_int_increasing) simp_all
  also have "\<dots> \<le> rnd y" using n by (rule rnd_lower)
  finally show ?thesis .
qed

lemma rnd_mono: assumes "0 \<le> x" "x \<le> y" shows "rnd x \<le> rnd y"
proof (cases "x = 0")
  case True
  then show ?thesis using rnd_nonneg[of y] assms by (simp add: rnd_0)
next
  case False
  then show ?thesis using assms rnd_mono_pos[of x y] by simp
qed

lemma rnd_err: "\<bar>rnd x - x\<bar> \<le> quantum x / 2"
proof -
  have q: "0 < quantum x" by (rule quantum_pos)
  have "rnd x - x = (of_int (rhe (x / quantum x)) - x / quantum x) * quantum x"
    using q by (simp add: rnd_def field_simps)
  then have "\<bar>rnd x - x\<bar> = \<bar>of_int (rhe (x / quantum x)) - x / quantum x\<bar> * quantum x"
    using q by (simp add: abs_mult)
  also have "\<dots> \<le> 1 / 2 * quantum x"
    using rhe_err[of "x / quantum x"] q by (intro mult_right_mono) simp_all
  finally show ?thesis by simp
qed

lemma rhe_eqI: assumes "\<bar>x - of_int n\<bar> < 1/2" shows "rhe x = n"
proof -
  have "\<bar>(of_int (rhe x) :: rat) - of_int n\<bar> < 1"
    using rhe_err[of x] assms by linarith
  then have "\<bar>(of_int (rhe x - n) :: rat)\<bar> < 1" by simp
  then have "\<bar>rhe x - n\<bar> < 1"
    by (metis of_int_abs of_int_less_iff of_int_1)
  then show ?thesis by simp
qed

lemma rnd_eqI:
  assumes "- 1022 \<le> e" "2 powi e \<le> \<bar>x\<bar>" "\<bar>x\<bar> < 2 powi (e + 1)"
    and "\<bar>x / 2 powi (e - 52) - of_int n\<bar> < 1/2"
  shows "rnd x = of_int n * 2 powi (e - 52)"
proof -
  have "expo x = e" using assms(1-3) by (rule expo_eqI)
  then have q: "quantum x = 2 powi (e - 52)" by (simp add: quantum_expo)
  have "rhe (x / 2 powi (e - 52)) = n" using assms(4) by (rule rhe_eqI)
  then show ?thesis by (simp add: rnd_def q)
qed

lemma rhe_quantum_bounds:
  assumes "0 \<le> x"
  shows "0 \<le> rhe (x / quantum x)" and "rhe (x / quantum x) \<le> 2 ^ 53"
proof -
  have q: "0 < quantum x" by (rule quantum_pos)
  have "of_int 0 \<le> x / quantum x" using assms q by simp
  then show "0 \<le> rhe (x / quantum x)" by (rule rhe_ge)
  show "rhe (x / quantum x) \<le> 2 ^ 53"
  proof (cases "x = 0")
    case True
    then show ?thesis by (simp add: rhe_def)
  next
    case False
    then have x: "0 < x" using assms by simp
    have "(2::rat) powi (53 + (expo x - 52)) = 2 powi 53 * 2 powi (expo x - 52)"
      by (rule power_int_add) simp
    then have e: "2 powi (expo x + 1) = 2 ^ 53 * quantum x"
      by (simp add: quantum_expo add.commute)
    have "x / quantum x \<le> 2 ^ 53"
      using expo_upper[OF x] q unfolding e by (simp add: field_simps)
    then have "x / quantum x \<le> of_int (2 ^ 53)" by simp
    then show ?thesis by (rule rhe_le)
  qed
qed

lemma rnd_repr_pos:
  assumes "0 < n" "n \<le> 2 ^ 53" "- 1074 \<le> k"
  shows "rnd (of_int n * 2 powi k) = of_int n * 2 powi k"
proof -
  define y :: rat where "y = of_int n * 2 powi k"
  have ypos: "0 < y" using assms(1) by (simp add: y_def)
  have q: "0 < quantum y" by (rule quantum_pos)
  have "\<exists>j. y / quantum y = of_int j"
  proof (cases "expo y - 52 \<le> k")
    case True
    have "(2::rat) powi (k - (expo y - 52)) = 2 powi k / 2 powi (expo y - 52)"
      by (rule power_int_diff) simp
    then have "y / quantum y = of_int n * 2 powi (k - (expo y - 52))"
      by (simp add: y_def quantum_expo)
    also have "\<dots> = of_int n * 2 ^ nat (k - (expo y - 52))"
      using True by (simp add: power_int_nonneg_exp)
    also have "\<dots> = of_int (n * 2 ^ nat (k - (expo y - 52)))" by simp
    finally show ?thesis by blast
  next
    case False
    then have big: "k + 53 \<le> expo y" by simp
    then have "- 1022 < expo y" using assms(3) by linarith
    then have "\<not> \<bar>y\<bar> < 2 powi (- 1022)"
      using expo_subnormal[of y] ypos by auto
    then have "2 powi (- 1022) \<le> y" using ypos by simp
    then have lo: "2 powi (expo y) \<le> y" by (rule expo_lower)
    have "(of_int n :: rat) \<le> of_int (2 ^ 53)" using assms(2) of_int_le_iff by blast
    then have "y \<le> 2 ^ 53 * 2 powi k" by (simp add: y_def)
    also have "2 ^ 53 * 2 powi k = (2::rat) powi (53 + k)"
      using power_int_add[of "2::rat" 53 k] by simp
    finally have hi: "y \<le> 2 powi (k + 53)" by (simp add: add.commute)
    have "(2::rat) powi (k + 53) \<le> 2 powi (expo y)"
      using big by (intro power_int_increasing) simp_all
    with lo hi have yeq: "y = 2 powi (expo y)" by linarith
    have "(2::rat) powi (expo y - (expo y - 52)) = 2 powi (expo y) / 2 powi (expo y - 52)"
      by (rule power_int_diff) simp
    then have "y / quantum y = 2 ^ 52" using yeq by (simp add: quantum_expo)
    then have "y / quantum y = of_int (2 ^ 52)" by simp
    then show ?thesis by blast
  qed
  then obtain j where j: "y / quantum y = of_int j" by blast
  then have "rnd y = of_int j * quantum y" by (simp add: rnd_def rhe_of_int)
  also have "\<dots> = y" using j q by (simp add: field_simps)
  finally show ?thesis by (simp add: y_def)
qed

lemma rnd_repr:
  assumes "0 \<le> n" "n \<le> 2 ^ 53" "- 1074 \<le> k"
  shows "rnd (of_int n * 2 powi k) = of_int n * 2 powi k"
proof (cases "n = 0")
  case True
  then show ?thesis by (simp add: rnd_0)
next
  case False
  then show ?thesis using assms rnd_repr_pos[of n k] by simp
qed

lemma rnd_idem: assumes "0 \<le> x" shows "rnd (rnd x) = rnd x"
proof -
  have "- 1074 \<le> expo x - 52" using expo_ge[of x] by linarith
  then have "rnd (of_int (rhe (x / quantum x)) * 2 powi (expo x - 52))
           = of_int (rhe (x / quantum x)) * 2 powi (expo x - 52)"
    using rhe_quantum_bounds[OF assms] by (intro rnd_repr) simp_all
  then show ?thesis by (simp add: rnd_def quantum_expo)
qed

lemma rnd_of_nat_small: assumes "n \<le> 2 ^ 53" shows "rnd (of_nat n) = of_nat n"
proof -
  have "int n \<le> int (2 ^ 53)" using assms of_nat_le_iff by blast
  then have "rnd (of_int (int n) * 2 powi 0) = of_int (int n) * 2 powi 0"
    by (intro rnd_repr) simp_all
  then show ?thesis by simp
qed

lemma rnd_grid: "\<exists>j. rnd x = of_int j * 2 powi (- 1074)"
proof -
  have "(2::rat) powi ((expo x + 1022) + (- 1074)) = 2 powi (expo x + 1022) * 2 powi (- 1074)"
    by (rule power_int_add) simp
  moreover have "expo x + 1022 + (- 1074) = expo x - 52" by simp
  ultimately have "quantum x = 2 powi (expo x + 1022) * 2 powi (- 1074)"
    by (simp add: quantum_expo)
  also have "2 powi (expo x + 1022) = (2::rat) ^ nat (expo x + 1022)"
    using expo_ge[of x] by (simp add: power_int_nonneg_exp)
  finally have "rnd x = of_int (rhe (x / quantum x) * 2 ^ nat (expo x + 1022)) * 2 powi (- 1074)"
    by (simp add: rnd_def)
  then show ?thesis by blast
qed

section \<open>Overflow and the finite doubles\<close>

lemma huge_pos: "0 < huge"
  by (simp add: huge_def)

lemma rnd_huge: "rnd huge = huge"
  using rnd_repr[of 1 1024] by (simp add: huge_def)

lemma rnd_1: "rnd 1 = 1"
  using rnd_of_nat_small[of 1] by simp

lemma round_double_0: "round_double 0 = Fin 0"
  using huge_pos by (simp add: round_double_def rnd_0)

lemma round_double_nonneg_cases:
  assumes "0 \<le> x"
  shows "round_double x = PInf \<or> (round_double x = Fin (rnd x) \<and> 0 \<le> rnd x \<and> rnd x < huge)"
proof -
  have "0 \<le> rnd x" using assms by (rule rnd_nonneg)
  then show ?thesis using huge_pos by (auto simp: round_double_def Let_def)
qed

lemma round_double_bounded:
  assumes "0 \<le> x" "x \<le> b" "is_double b"
  shows "round_double x = Fin (rnd x)"
proof -
  have "rnd x \<le> rnd b" using assms(1,2) by (rule rnd_mono)
  moreover have "rnd b = b" "b < huge" using assms(3) by (auto simp: is_double_def)
  ultimately have "rnd x < huge" by linarith
  moreover have "0 \<le> rnd x" using assms(1) by (rule rnd_nonneg)
  ultimately show ?thesis using huge_pos by (simp add: round_double_def Let_def)
qed

lemma round_double_overflow:
  assumes "huge \<le> x"
  shows "round_double x = PInf"
proof -
  have "0 \<le> huge" using huge_pos by simp
  then have "rnd huge \<le> rnd x" using assms by (rule rnd_mono)
  then show ?thesis by (simp add: round_double_def rnd_huge)
qed

lemma round_double_mono:
  assumes "0 \<le> x" "x \<le> y"
  shows "fle (round_double x) (round_double y)"
proof -
  have m: "rnd x \<le> rnd y" using assms by (rule rnd_mono)
  have "0 \<le> rnd x" using assms(1) by (rule rnd_nonneg)
  with m show ?thesis using huge_pos by (auto simp: round_double_def Let_def)
qed

lemma round_double_is_double:
  assumes "0 \<le> x" "is_double x"
  shows "round_double x = Fin x"
  using assms huge_pos by (auto simp: round_double_def is_double_def Let_def)

lemma is_double_rnd:
  assumes "0 \<le> x" "rnd x < huge"
  shows "is_double (rnd x)"
  using assms rnd_nonneg[of x] rnd_idem[of x] by (simp add: is_double_def)

lemma is_double_of_nat: assumes "n \<le> 2 ^ 53" shows "is_double (of_nat n)"
proof -
  have "(of_nat n :: rat) \<le> of_nat (2 ^ 53)" using assms of_nat_le_iff by blast
  also have "\<dots> < huge" by (simp add: huge_def)
  finally show ?thesis using rnd_of_nat_small[OF assms] by (simp add: is_double_def)
qed

lemma is_double_1: "is_double 1"
  using is_double_of_nat[of 1] by simp

lemma is_double_100: "is_double 100"
  using is_double_of_nat[of 100] by simp

lemma float_of_int_1: "float_of_int 1 = Fin 1"
  using round_double_is_double[OF _ is_double_1] by (simp add: float_of_int_def)

lemma float_of_int_100: "float_of_int 100 = Fin 100"
  using round_double_is_double[OF _ is_double_100] by (simp add: float_of_int_def)

section \<open>The factors of the calculation\<close>

text \<open>
  For inputs in range the quotients by 100 lie in \<open>[0, 1]\<close>, the demand factor in \<open>[1, 2]\<close>
  and the stock factor in \<open>[3/4, 1]\<close>, all finite; the demand factor grows with the demand
  and the stock factor falls with the stock.
\<close>

lemma ebind_Inr: "ebind (Inr x) f = f x"
  by (simp add: ebind_def)

lemma is_double_2: "is_double 2"
  using is_double_of_nat[of 2] by simp

lemma rnd_half: "rnd (1 / 2) = 1 / 2"
  using rnd_repr[of 1 "- 1"] by simp

lemma rnd_quarter: "rnd (1 / 4) = 1 / 4"
  using rnd_repr[of 1 "- 2"] by simp

lemma rnd_three_quarters: "rnd (3 / 4) = 3 / 4"
  using rnd_repr[of 3 "- 2"] by simp

lemma rnd_2: "rnd 2 = 2"
  using rnd_of_nat_small[of 2] by simp

lemma rnd_le_1: "0 \<le> x \<Longrightarrow> x \<le> 1 \<Longrightarrow> rnd x \<le> 1"
  using rnd_mono[of x 1] by (simp add: rnd_1)

lemma rnd_ge_1: "1 \<le> x \<Longrightarrow> 1 \<le> rnd x"
  using rnd_mono[of 1 x] by (simp add: rnd_1)

lemma quot100_bounds:
  assumes "0 \<le> d" "d \<le> 100"
  shows "0 \<le> quot100 d" and "quot100 d \<le> 1"
proof -
  have a: "(0::rat) \<le> of_int d / 100" using assms(1) by simp
  have b: "(of_int d :: rat) / 100 \<le> 1" using assms(2) by simp
  show "0 \<le> quot100 d" unfolding quot100_def using a by (rule rnd_nonneg)
  show "quot100 d \<le> 1" unfolding quot100_def using a b by (rule rnd_le_1)
qed

lemma quot100_mono:
  assumes "0 \<le> d1" "d1 \<le> d2"
  shows "quot100 d1 \<le> quot100 d2"
  unfolding quot100_def using assms by (intro rnd_mono) simp_all

lemma quot100_0: "quot100 0 = 0"
  by (simp add: quot100_def rnd_0)

lemma quot100_100: "quot100 100 = 1"
  by (simp add: quot100_def rnd_1)

lemma quot100_le_half:
  assumes "0 \<le> d" "d \<le> 50"
  shows "quot100 d \<le> 1 / 2"
proof -
  have "quot100 d \<le> quot100 50" using assms by (rule quot100_mono)
  then show ?thesis by (simp add: quot100_def rnd_half)
qed

lemma int_truediv_100:
  assumes "0 \<le> d" "d \<le> 100"
  shows "int_truediv d 100 = Inr (Fin (quot100 d))"
proof -
  have a: "(0::rat) \<le> of_int d / 100" using assms(1) by simp
  have b: "(of_int d :: rat) / 100 \<le> 1" using assms(2) by simp
  have "round_double (of_int d / 100) = Fin (rnd (of_int d / 100))"
    using a b is_double_1 by (rule round_double_bounded)
  then show ?thesis by (simp add: int_truediv_def quot100_def)
qed

lemma float_lit_bounded:
  assumes "0 \<le> x" "x \<le> b" "is_double b"
  shows "float_lit x = Fin (rnd x)"
  unfolding float_lit_def using assms by (rule round_double_bounded)

lemma lit02_bounds: "0 \<le> rnd (2 / 10)" "rnd (2 / 10) \<le> 1 / 4"
proof -
  show "0 \<le> rnd (2 / 10)" by (rule rnd_nonneg) simp
  have "rnd (2 / 10) \<le> rnd (1 / 4)" by (rule rnd_mono) simp_all
  then show "rnd (2 / 10) \<le> 1 / 4" by (simp add: rnd_quarter)
qed

lemma lit015_bounds: "0 \<le> rnd (15 / 100)" "rnd (15 / 100) \<le> 1 / 4"
proof -
  show "0 \<le> rnd (15 / 100)" by (rule rnd_nonneg) simp
  have "rnd (15 / 100) \<le> rnd (1 / 4)" by (rule rnd_mono) simp_all
  then show "rnd (15 / 100) \<le> 1 / 4" by (simp add: rnd_quarter)
qed

lemma prod_bounds:
  fixes q l :: rat
  assumes "0 \<le> q" "q \<le> 1" "0 \<le> l" "l \<le> 1 / 4"
  shows "0 \<le> q * l" and "q * l \<le> 1 / 4"
proof -
  show "0 \<le> q * l" using assms by simp
  have "q * l \<le> 1 * l" using assms by (intro mult_right_mono) simp_all
  then show "q * l \<le> 1 / 4" using assms by simp
qed

lemma dfr_bounds:
  assumes "0 \<le> d" "d \<le> 100"
  shows "1 \<le> dfr d" and "dfr d \<le> 2"
proof -
  note q = quot100_bounds[OF assms]
  note p = prod_bounds[OF q lit02_bounds]
  have r0: "0 \<le> rnd (quot100 d * rnd (2 / 10))" using p(1) by (rule rnd_nonneg)
  have "rnd (quot100 d * rnd (2 / 10)) \<le> rnd (1 / 4)" using p by (rule rnd_mono)
  then have r1: "rnd (quot100 d * rnd (2 / 10)) \<le> 1 / 4" by (simp add: rnd_quarter)
  show "1 \<le> dfr d" unfolding dfr_def using r0 by (intro rnd_ge_1) simp
  have "rnd (1 + rnd (quot100 d * rnd (2 / 10))) \<le> rnd 2"
    using r0 r1 by (intro rnd_mono) simp_all
  then show "dfr d \<le> 2" by (simp add: dfr_def rnd_2)
qed

lemma dfr_mono:
  assumes "0 \<le> d1" "d1 \<le> d2" "d2 \<le> 100"
  shows "dfr d1 \<le> dfr d2"
proof -
  have d1: "d1 \<le> 100" using assms by simp
  have d2: "0 \<le> d2" using assms by simp
  note q1 = quot100_bounds[OF assms(1) d1]
  have m: "quot100 d1 * rnd (2 / 10) \<le> quot100 d2 * rnd (2 / 10)"
    using quot100_mono[OF assms(1,2)] lit02_bounds(1) by (rule mult_right_mono)
  have p1: "0 \<le> quot100 d1 * rnd (2 / 10)" using q1(1) lit02_bounds(1) by simp
  have "rnd (quot100 d1 * rnd (2 / 10)) \<le> rnd (quot100 d2 * rnd (2 / 10))"
    using p1 m by (rule rnd_mono)
  moreover have "0 \<le> rnd (quot100 d1 * rnd (2 / 10))" using p1 by (rule rnd_nonneg)
  ultimately show ?thesis unfolding dfr_def by (intro rnd_mono) simp_all
qed

lemma demand_factor_Fin:
  assumes "0 \<le> d" "d \<le> 100"
  shows "fadd (float_of_int 1) (fmul (Fin (quot100 d)) (float_lit (2 / 10))) = Fin (dfr d)"
proof -
  note q = quot100_bounds[OF assms]
  note p = prod_bounds[OF q lit02_bounds]
  have l: "float_lit (2 / 10) = Fin (rnd (2 / 10))"
    by (rule float_lit_bounded[OF _ _ is_double_1]) simp_all
  have "(1::rat) / 4 \<le> 1" by simp
  with p(2) have "quot100 d * rnd (2 / 10) \<le> 1" by (rule order_trans)
  with p(1) have m: "round_double (quot100 d * rnd (2 / 10)) = Fin (rnd (quot100 d * rnd (2 / 10)))"
    using is_double_1 by (rule round_double_bounded)
  have r0: "0 \<le> rnd (quot100 d * rnd (2 / 10))" using p(1) by (rule rnd_nonneg)
  have "rnd (quot100 d * rnd (2 / 10)) \<le> rnd (1 / 4)" using p by (rule rnd_mono)
  then have r1: "rnd (quot100 d * rnd (2 / 10)) \<le> 1 / 4" by (simp add: rnd_quarter)
  have "round_double (1 + rnd (quot100 d * rnd (2 / 10))) = Fin (rnd (1 + rnd (quot100 d * rnd (2 / 10))))"
    using r0 r1 by (intro round_double_bounded[OF _ _ is_double_2]) simp_all
  with l m show ?thesis by (simp add: float_of_int_1 dfr_def)
qed

lemma sfr_bounds:
  assumes "0 \<le> s" "s \<le> 100"
  shows "3 / 4 \<le> sfr s" and "sfr s \<le> 1"
proof -
  note q = quot100_bounds[OF assms]
  note p = prod_bounds[OF q lit015_bounds]
  have r0: "0 \<le> rnd (quot100 s * rnd (15 / 100))" using p(1) by (rule rnd_nonneg)
  have "rnd (quot100 s * rnd (15 / 100)) \<le> rnd (1 / 4)" using p by (rule rnd_mono)
  then have r1: "rnd (quot100 s * rnd (15 / 100)) \<le> 1 / 4" by (simp add: rnd_quarter)
  have "rnd (3 / 4) \<le> rnd (1 - rnd (quot100 s * rnd (15 / 100)))"
    using r1 by (intro rnd_mono) simp_all
  then show "3 / 4 \<le> sfr s" by (simp add: sfr_def rnd_three_quarters)
  show "sfr s \<le> 1" unfolding sfr_def using r0 r1 by (intro rnd_le_1) simp_all
qed

lemma sfr_antimono:
  assumes "0 \<le> s1" "s1 \<le> s2" "s2 \<le> 100"
  shows "sfr s2 \<le> sfr s1"
proof -
  have s2: "0 \<le> s2" using assms by simp
  note q2 = quot100_bounds[OF s2 assms(3)]
  note p2 = prod_bounds[OF q2 lit015_bounds]
  have s1: "s1 \<le> 100" using assms by simp
  note q1 = quot100_bounds[OF assms(1) s1]
  have m: "quot100 s1 * rnd (15 / 100) \<le> quot100 s2 * rnd (15 / 100)"
    using quot100_mono[OF assms(1,2)] lit015_bounds(1) by (rule mult_right_mono)
  have p1: "0 \<le> quot100 s1 * rnd (15 / 100)" using q1(1) lit015_bounds(1) by simp
  have le: "rnd (quot100 s1 * rnd (15 / 100)) \<le> rnd (quot100 s2 * rnd (15 / 100))"
    using p1 m by (rule rnd_mono)
  have "rnd (quot100 s2 * rnd (15 / 100)) \<le> rnd (1 / 4)" using p2 by (rule rnd_mono)
  then have r1: "rnd (quot100 s2 * rnd (15 / 100)) \<le> 1 / 4" by (simp add: rnd_quarter)
  show ?thesis unfolding sfr_def using le r1 by (intro rnd_mono) simp_all
qed

lemma stock_factor_Fin:
  assumes "0 \<le> s" "s \<le> 100"
  shows "fsub (float_of_int 1) (fmul (Fin (quot100 s)) (float_lit (15 / 100))) = Fin (sfr s)"
proof -
  note q = quot100_bounds[OF assms]
  note p = prod_bounds[OF q lit015_bounds]
  have l: "float_lit (15 / 100) = Fin (rnd (15 / 100))"
    by (rule float_lit_bounded[OF _ _ is_double_1]) simp_all
  have "(1::rat) / 4 \<le> 1" by simp
  with p(2) have "quot100 s * rnd (15 / 100) \<le> 1" by (rule order_trans)
  with p(1) have m: "round_double (quot100 s * rnd (15 / 100)) = Fin (rnd (quot100 s * rnd (15 / 100)))"
    using is_double_1 by (rule round_double_bounded)
  have r0: "0 \<le> rnd (quot100 s * rnd (15 / 100))" using p(1) by (rule rnd_nonneg)
  have "rnd (quot100 s * rnd (15 / 100)) \<le> rnd (1 / 4)" using p by (rule rnd_mono)
  then have r1: "rnd (quot100 s * rnd (15 / 100)) \<le> 1 / 4" by (simp add: rnd_quarter)
  have "round_double (1 - rnd (quot100 s * rnd (15 / 100))) = Fin (rnd (1 - rnd (quot100 s * rnd (15 / 100))))"
    using r0 r1 by (intro round_double_bounded[OF _ _ is_double_1]) simp_all
  with l m show ?thesis by (simp add: float_of_int_1 sfr_def)
qed

lemma ssr_bounds: "1 \<le> ssr b" "ssr b \<le> 2"
proof -
  have "1 \<le> rnd (11 / 10)" by (rule rnd_ge_1) simp
  then show "1 \<le> ssr b" by (simp add: ssr_def)
  have "rnd (11 / 10) \<le> rnd 2" by (rule rnd_mono) simp_all
  then show "ssr b \<le> 2" by (simp add: ssr_def rnd_2)
qed

lemma seasonal_factor_Fin:
  "float_of (if b then PyFloat (float_lit (11 / 10)) else PyInt 1) = Fin (ssr b)"
proof -
  have "float_lit (11 / 10) = Fin (rnd (11 / 10))"
    by (rule float_lit_bounded[OF _ _ is_double_2]) simp_all
  then show ?thesis by (simp add: ssr_def float_of_int_1)
qed

section \<open>The structure of the calculation\<close>

text \<open>
  For inputs in range the only statement that can raise is the table lookup, and the
  breakdown is given by the derived quantities.
\<close>

lemma pricing_unfold:
  assumes "in_range inp" "dict_get gst_rates (category inp) = Inr r"
  shows "pricing inp =
           ebind (margin_expr (profit_of inp r) (final_of inp r)) (\<lambda>pm. Inr (bd_of inp r pm))"
proof -
  have d: "int_truediv (demand inp) 100 = Inr (Fin (quot100 (demand inp)))"
    using assms(1) by (intro int_truediv_100) (simp_all add: in_range_def)
  have s: "int_truediv (stock inp) 100 = Inr (Fin (quot100 (stock inp)))"
    using assms(1) by (intro int_truediv_100) (simp_all add: in_range_def)
  have c: "int_truediv (discount inp) 100 = Inr (Fin (quot100 (discount inp)))"
    using assms(1) by (intro int_truediv_100) (simp_all add: in_range_def)
  have df: "fadd (float_of_int 1) (fmul (Fin (quot100 (demand inp))) (float_lit (2 / 10)))
            = Fin (dfr (demand inp))"
    using assms(1) by (intro demand_factor_Fin) (simp_all add: in_range_def)
  have sf: "fsub (float_of_int 1) (fmul (Fin (quot100 (stock inp))) (float_lit (15 / 100)))
            = Fin (sfr (stock inp))"
    using assms(1) by (intro stock_factor_Fin) (simp_all add: in_range_def)
  show ?thesis
    unfolding pricing_def Let_def d s c assms(2) ebind_Inr df sf seasonal_factor_Fin
    by (simp only: margin_expr_def bd_of_def pre_of_def disc_of_def pad_of_def gst_of_def
        final_of_def profit_of_def Let_def)
qed

lemma margin_expr_total: "\<exists>pm. margin_expr p f = Inr pm"
proof (cases f)
  case (Fin x)
  then show ?thesis by (cases p) (auto simp: margin_expr_def ebind_def)
next
  case PInf
  then show ?thesis by (cases p) (auto simp: margin_expr_def ebind_def)
qed (auto simp: margin_expr_def)

lemma pricing_total:
  assumes "in_range inp" "dict_get gst_rates (category inp) = Inr r"
  shows "\<exists>pm. margin_expr (profit_of inp r) (final_of inp r) = Inr pm
              \<and> pricing inp = Inr (bd_of inp r pm)"
proof -
  obtain pm where "margin_expr (profit_of inp r) (final_of inp r) = Inr pm"
    using margin_expr_total by blast
  then show ?thesis using pricing_unfold[OF assms] by (simp add: ebind_Inr)
qed

lemma dict_get_total:
  assumes "k \<in> set (map fst d)"
  shows "\<exists>v. dict_get d k = Inr v \<and> (k, v) \<in> set d"
proof -
  obtain v where "map_of d k = Some v"
    using assms by (metis map_of_eq_None_iff not_Some_eq set_map)
  then show ?thesis by (auto simp: dict_get_def dest: map_of_SomeD)
qed

lemma pricing_struct:
  "pricing inp =
     ebind (int_truediv (demand inp) 100) (\<lambda>dq.
     ebind (int_truediv (stock inp) 100) (\<lambda>sq.
     ebind (dict_get gst_rates (category inp)) (\<lambda>r.
     ebind (int_truediv (discount inp) 100) (\<lambda>cq.
     ebind (margin_expr
              (fsub (fin_g (pre_g (competitor_price inp) dq sq (seasonal inp)) cq r)
                    (cost_price inp))
              (fin_g (pre_g (competitor_price inp) dq sq (seasonal inp)) cq r)) (\<lambda>pm.
     Inr (bd_g inp dq sq r cq pm))))))"
  unfolding pricing_def Let_def
  by (simp only: margin_expr_def bd_g_def pre_g_def fin_g_def)

lemma ebind_InrD: "ebind m f = Inr b \<Longrightarrow> \<exists>x. m = Inr x \<and> f x = Inr b"
  by (cases m) (simp_all add: ebind_def)

lemma ebind_InlD: "ebind m f = Inl e \<Longrightarrow> m = Inl e \<or> (\<exists>x. m = Inr x \<and> f x = Inl e)"
  by (cases m) (simp_all add: ebind_def)

lemma pricing_InrD:
  assumes "pricing inp = Inr b"
  shows "\<exists>dq sq r cq pm.
           int_truediv (demand inp) 100 = Inr dq \<and> int_truediv (stock inp) 100 = Inr sq \<and>
           dict_get gst_rates (category inp) = Inr r \<and>
           int_truediv (discount inp) 100 = Inr cq \<and>
           margin_expr
              (fsub (fin_g (pre_g (competitor_price inp) dq sq (seasonal inp)) cq r)
                    (cost_price inp))
              (fin_g (pre_g (competitor_price inp) dq sq (seasonal inp)) cq r) = Inr pm \<and>
           b = bd_g inp dq sq r cq pm"
proof -
  from assms[unfolded pricing_struct] obtain dq where
    dq: "int_truediv (demand inp) 100 = Inr dq" and
    a1: "ebind (int_truediv (stock inp) 100) (\<lambda>sq.
     ebind (dict_get gst_rates (category inp)) (\<lambda>r.
     ebind (int_truediv (discount inp) 100) (\<lambda>cq.
     ebind (margin_expr
              (fsub (fin_g (pre_g (competitor_price inp) dq sq (seasonal inp)) cq r)
                    (cost_price inp))
              (fin_g (pre_g (competitor_price inp) dq sq (seasonal inp)) cq r)) (\<lambda>pm.
     Inr (bd_g inp dq sq r cq pm))))) = Inr b"
    by (blast dest: ebind_InrD)
  from a1 obtain sq where
    sq: "int_truediv (stock inp) 100 = Inr sq" and
    a2: "ebind (dict_get gst_rates (category inp)) (\<lambda>r.
     ebind (int_truediv (discount inp) 100) (\<lambda>cq.
     ebind (margin_expr
              (fsub (fin_g (pre_g (competitor_price inp) dq sq (seasonal inp)) cq r)
                    (cost_price inp))
              (fin_g (pre_g (competitor_price inp) dq sq (seasonal inp)) cq r)) (\<lambda>pm.
     Inr (bd_g inp dq sq r cq pm)))) = Inr b"
    by (blast dest: ebind_InrD)
  from a2 obtain r where
    r: "dict_get gst_rates (category inp) = Inr r" and
    a3: "ebind (int_truediv (discount inp) 100) (\<lambda>cq.
     ebind (margin_expr
              (fsub (fin_g (pre_g (competitor_price inp) dq sq (seasonal inp)) cq r)
                    (cost_price inp))
              (fin_g (pre_g (competitor_price inp) dq sq (seasonal inp)) cq r)) (\<lambda>pm.
     Inr (bd_g inp dq sq r cq pm))) = Inr b"
    by (blast dest: ebind_InrD)
  from a3 obtain cq where
    cq: "int_truediv (discount inp) 100 = Inr cq" and
    a4: "ebind (margin_expr
              (fsub (fin_g (pre_g (competitor_price inp) dq sq (seasonal inp)) cq r)
                    (cost_price inp))
              (fin_g (pre_g (competitor_price inp) dq sq (seasonal inp)) cq r)) (\<lambda>pm.
     Inr (bd_g inp dq sq r cq pm)) = Inr b"
    by (blast dest: ebind_InrD)
  from a4 obtain pm where
    pm: "margin_expr
              (fsub (fin_g (pre_g (competitor_price inp) dq sq (seasonal inp)) cq r)
                    (cost_price inp))
              (fin_g (pre_g (competitor_price inp) dq sq (seasonal inp)) cq r) = Inr pm" and
    a5: "Inr (bd_g inp dq sq r cq pm) = (Inr b :: error + breakdown)"
    by (blast dest: ebind_InrD)
  from a5 have "b = bd_g inp dq sq r cq pm" by simp
  with dq sq r cq pm show ?thesis by blast
qed

lemma margin_expr_cases:
  assumes "margin_expr p f = Inr pm"
  shows "(fle_int f 0 \<longrightarrow> pm = PyInt 0) \<and>
         (fgt_int f 0 \<longrightarrow>
            (\<exists>q. py_truediv p f = Inr q \<and> pm = PyFloat (fmul q (float_of_int 100))))"
proof (cases "fgt_int f 0")
  case True
  then have nle: "\<not> fle_int f 0" by (cases f) auto
  from True assms obtain q where "py_truediv p f = Inr q" "pm = PyFloat (fmul q (float_of_int 100))"
    by (cases "py_truediv p f") (auto simp: margin_expr_def ebind_def)
  with True nle show ?thesis by simp
next
  case False
  with assms show ?thesis by (simp add: margin_expr_def)
qed

lemma pricing_no_zero_division: "pricing inp \<noteq> Inl ZeroDivisionError"
proof
  assume a: "pricing inp = Inl ZeroDivisionError"
  have i: "int_truediv n 100 \<noteq> Inl ZeroDivisionError" for n
    by (simp add: int_truediv_def split: double.splits)
  have g: "dict_get gst_rates k \<noteq> Inl ZeroDivisionError" for k
    by (simp add: dict_get_def split: option.splits)
  have m: "margin_expr p f \<noteq> Inl e" for p f e
    using margin_expr_total[of p f] by auto
  from a[unfolded pricing_struct] i g m show False
    by (auto dest!: ebind_InlD)
qed

section \<open>Evaluating the operations on concrete doubles\<close>

lemma small_lt_huge: "\<bar>y\<bar> \<le> 1048576 \<Longrightarrow> \<bar>y\<bar> < huge"
proof -
  have "(1048576::rat) < huge" by (simp add: huge_def)
  then show "\<bar>y\<bar> \<le> 1048576 \<Longrightarrow> \<bar>y\<bar> < huge" by linarith
qed

lemma round_double_eval:
  assumes "rnd x = y" "\<bar>y\<bar> \<le> 1048576"
  shows "round_double x = Fin y"
  using small_lt_huge[OF assms(2)] assms(1) by (auto simp: round_double_def Let_def)

lemma fmul_eval: "rnd (a * b) = y \<Longrightarrow> \<bar>y\<bar> \<le> 1048576 \<Longrightarrow> fmul (Fin a) (Fin b) = Fin y"
  by (simp add: round_double_eval)

lemma fadd_eval: "rnd (a + b) = y \<Longrightarrow> \<bar>y\<bar> \<le> 1048576 \<Longrightarrow> fadd (Fin a) (Fin b) = Fin y"
  by (simp add: round_double_eval)

lemma fsub_eval: "rnd (a - b) = y \<Longrightarrow> \<bar>y\<bar> \<le> 1048576 \<Longrightarrow> fsub (Fin a) (Fin b) = Fin y"
  by (simp add: round_double_eval)

lemma truediv_eval:
  "b \<noteq> 0 \<Longrightarrow> rnd (a / b) = y \<Longrightarrow> \<bar>y\<bar> \<le> 1048576 \<Longrightarrow> py_truediv (Fin a) (Fin b) = Inr (Fin y)"
  by (simp add: round_double_eval)

lemma float_lit_eval: "rnd x = y \<Longrightarrow> \<bar>y\<bar> \<le> 1048576 \<Longrightarrow> float_lit x = Fin y"
  by (simp add: float_lit_def round_double_eval)

lemma quot100_50: "quot100 50 = 1 / 2"
  unfolding quot100_def by code_simp

lemma lit02_val: "rnd (2 / 10) = 3602879701896397 / 18014398509481984"
  by code_simp

lemma lit015_val: "rnd (15 / 100) = 5404319552844595 / 36028797018963968"
  by code_simp

lemma dfr_50: "dfr 50 = 2476979795053773 / 2251799813685248"
proof -
  have a: "rnd (1 / 2 * (3602879701896397 / 18014398509481984))
           = 3602879701896397 / 36028797018963968" by code_simp
  have b: "rnd (1 + 3602879701896397 / 36028797018963968)
           = 2476979795053773 / 2251799813685248" by code_simp
  show ?thesis by (simp only: dfr_def quot100_50 lit02_val a b)
qed

lemma sfr_50: "sfr 50 = 4165829655317709 / 4503599627370496"
proof -
  have a: "rnd (1 / 2 * (5404319552844595 / 36028797018963968))
           = 5404319552844595 / 72057594037927936" by code_simp
  have b: "rnd (1 - 5404319552844595 / 72057594037927936)
           = 4165829655317709 / 4503599627370496" by code_simp
  show ?thesis by (simp only: sfr_def quot100_50 lit015_val a b)
qed

lemma valid_scenario1: "valid_input scenario1"
  by (simp add: valid_input_def scenario1_def in_range_def is_double_100
      is_double_of_nat[of 50, simplified] gst_rates_def)

section \<open>The smallest positive double\<close>

text \<open>
  Every double is a multiple of \<open>tiny\<close>, so two different doubles are at least \<open>tiny\<close>
  apart, a positive double is at least \<open>tiny\<close>, and half of a positive double rounds to a
  smaller double.
\<close>

lemma tiny_pos: "0 < tiny"
  by (simp add: tiny_def)

lemma rnd_tiny: "rnd tiny = tiny"
  using rnd_repr[of 1 "- 1074"] by (simp add: tiny_def)

lemma tiny_le_rnd: assumes "tiny \<le> x" shows "tiny \<le> rnd x"
proof -
  have "0 \<le> tiny" using tiny_pos by simp
  then have "rnd tiny \<le> rnd x" using assms by (rule rnd_mono)
  then show ?thesis by (simp add: rnd_tiny)
qed

lemma tiny_lt_normal: "tiny < 2 powi (- 1022)"
  unfolding tiny_def by (rule power_int_strict_increasing) simp_all

lemma quantum_subnormal:
  assumes "0 < x" "x < 2 powi (- 1022)"
  shows "quantum x = tiny"
proof -
  have "expo x = - 1022" using assms by (intro expo_subnormal) simp_all
  then show ?thesis by (simp add: quantum_def tiny_def)
qed

lemma rnd_three_quarters_tiny: "rnd (3 / 4 * tiny) = tiny"
proof -
  have p: "0 < 3 / 4 * tiny" using tiny_pos by simp
  have "3 / 4 * tiny < tiny" using tiny_pos by simp
  then have "3 / 4 * tiny < 2 powi (- 1022)" using tiny_lt_normal by linarith
  with p have q: "quantum (3 / 4 * tiny) = tiny" by (rule quantum_subnormal)
  have "rhe (3 / 4) = 1" by code_simp
  moreover have "3 / 4 * tiny / tiny = 3 / 4" using tiny_pos by simp
  ultimately show ?thesis unfolding rnd_def q by simp
qed

lemma tiny_le_rnd_three_quarters: assumes "3 / 4 * tiny \<le> x" shows "tiny \<le> rnd x"
proof -
  have "0 \<le> 3 / 4 * tiny" using tiny_pos by simp
  then have "rnd (3 / 4 * tiny) \<le> rnd x" using assms by (rule rnd_mono)
  then show ?thesis unfolding rnd_three_quarters_tiny .
qed

lemma grid_gap:
  assumes "rnd x < rnd y"
  shows "rnd x + tiny \<le> rnd y"
proof -
  obtain j where j: "rnd x = of_int j * tiny" using rnd_grid[of x] by (auto simp: tiny_def)
  obtain k where k: "rnd y = of_int k * tiny" using rnd_grid[of y] by (auto simp: tiny_def)
  from assms have "(of_int j :: rat) < of_int k" using tiny_pos by (simp add: j k)
  then have "j + 1 \<le> k" by simp
  then have "(of_int (j + 1) :: rat) \<le> of_int k" using of_int_le_iff by blast
  then have "of_int (j + 1) * tiny \<le> of_int k * tiny"
    using tiny_pos by (intro mult_right_mono) simp_all
  then show ?thesis by (simp add: j k algebra_simps)
qed

lemma is_double_ge_tiny:
  assumes "is_double c" "0 < c"
  shows "tiny \<le> c"
proof -
  have c: "rnd c = c" using assms(1) by (simp add: is_double_def)
  have "rnd 0 < rnd c" using assms(2) by (simp add: rnd_0 c)
  from grid_gap[OF this] show ?thesis by (simp add: rnd_0 c)
qed

lemma rnd_half_less:
  assumes "is_double p" "0 < p"
  shows "rnd (p / 2) < p"
proof (cases "p / 2 < 2 powi (- 1022)")
  case True
  have hp: "0 < p / 2" using assms(2) by simp
  have q: "quantum (p / 2) = tiny" using hp True by (rule quantum_subnormal)
  have c: "rnd p = p" using assms(1) by (simp add: is_double_def)
  obtain j where j: "p = of_int j * tiny" using rnd_grid[of p] by (auto simp: tiny_def c)
  have jpos: "0 < j" using assms(2) tiny_pos by (simp add: j zero_less_mult_iff)
  have "rhe (of_int j / 2) < j"
  proof (cases "j = 1")
    case True
    have "rhe (1 / 2) = 0" by code_simp
    with True show ?thesis by simp
  next
    case False
    then have j2: "2 \<le> j" using jpos by simp
    then have "(of_int 2 :: rat) \<le> of_int j" using of_int_le_iff by blast
    then have "(of_int j :: rat) / 2 + 1 / 2 < of_int j" by simp
    moreover have "of_int (rhe (of_int j / 2)) \<le> (of_int j :: rat) / 2 + 1 / 2"
      using rhe_err[of "of_int j / 2"] by linarith
    ultimately have "(of_int (rhe (of_int j / 2)) :: rat) < of_int j" by linarith
    then show ?thesis by simp
  qed
  then have "(of_int (rhe (of_int j / 2)) :: rat) < of_int j" by simp
  then have lt: "of_int (rhe (of_int j / 2)) * tiny < of_int j * tiny"
    using tiny_pos by simp
  have e: "p / 2 / tiny = of_int j / 2" using tiny_pos by (simp add: j)
  have "rnd (p / 2) = of_int (rhe (of_int j / 2)) * tiny" unfolding rnd_def q e ..
  also note lt
  also have "of_int j * tiny = p" by (simp add: j)
  finally show ?thesis .
next
  case False
  then have n: "2 powi (- 1022) \<le> p / 2" by simp
  have "(2::rat) powi (expo (p / 2) + (- 52)) = 2 powi (expo (p / 2)) * 2 powi (- 52)"
    by (rule power_int_add) simp
  then have "quantum (p / 2) = 2 powi (expo (p / 2)) * 2 powi (- 52)"
    by (simp add: quantum_def)
  also have "\<dots> \<le> p / 2 * 2 powi (- 52)"
    using expo_lower[OF n] by (intro mult_right_mono) simp_all
  also have "\<dots> \<le> p / 2 * 1"
    using assms(2) by (intro mult_left_mono) (simp_all add: power_int_minus_divide)
  finally have "quantum (p / 2) \<le> p / 2" by simp
  moreover have "rnd (p / 2) \<le> p / 2 + quantum (p / 2) / 2"
    using rnd_err[of "p / 2"] by linarith
  ultimately show ?thesis using assms(2) by linarith
qed

section \<open>Monotonicity of the pre-discount price\<close>

lemma fle_PInf: "fle (Fin 0) d \<Longrightarrow> fle d PInf"
  by (cases d) simp_all

lemma round_double_nonneg: assumes "0 \<le> x" shows "fle (Fin 0) (round_double x)"
  using round_double_mono[of 0 x] assms by (simp add: round_double_0)

lemma fmul_nonneg:
  assumes "fle (Fin 0) a" "0 < s"
  shows "fle (Fin 0) (fmul a (Fin s))"
proof (cases a)
  case (Fin x)
  with assms have "0 \<le> x * s" by simp
  then show ?thesis using Fin by (simp add: round_double_nonneg)
qed (use assms in simp_all)

lemma fmul_mono_left:
  assumes "fle (Fin 0) a" "fle a b" "0 < s"
  shows "fle (fmul a (Fin s)) (fmul b (Fin s))"
proof (cases a)
  case a: (Fin x)
  with assms(1) have x: "0 \<le> x" by simp
  show ?thesis
  proof (cases b)
    case b: (Fin y)
    with a assms(2) have "x \<le> y" by simp
    then have "x * s \<le> y * s" using assms(3) by simp
    moreover have "0 \<le> x * s" using x assms(3) by simp
    ultimately show ?thesis using a b by (simp add: round_double_mono)
  next
    case PInf
    have "fle (Fin 0) (fmul a (Fin s))" using assms(1,3) by (rule fmul_nonneg)
    then show ?thesis using PInf assms(3) by (simp add: fle_PInf)
  qed (use a assms in simp_all)
next
  case PInf
  with assms(2) have "b = PInf" by (cases b) simp_all
  with PInf assms(3) show ?thesis by simp
qed (use assms in simp_all)

lemma fmul_mono_right:
  assumes "fle (Fin 0) a" "0 < s1" "s1 \<le> s2"
  shows "fle (fmul a (Fin s1)) (fmul a (Fin s2))"
proof (cases a)
  case (Fin x)
  with assms(1) have x: "0 \<le> x" by simp
  then have "x * s1 \<le> x * s2" using assms(3) by (rule mult_left_mono[rotated])
  moreover have "0 \<le> x * s1" using x assms(2) by simp
  ultimately show ?thesis using Fin by (simp add: round_double_mono)
qed (use assms in simp_all)

lemma pre_of_demand_mono:
  assumes "competitor_price inp = Fin c" "0 < c" "0 \<le> stock inp" "stock inp \<le> 100"
    and "0 \<le> d1" "d1 \<le> d2" "d2 \<le> 100"
  shows "fle (pre_of (inp\<lparr>demand := d1\<rparr>)) (pre_of (inp\<lparr>demand := d2\<rparr>))"
proof -
  have d1: "d1 \<le> 100" using assms by simp
  have f1: "1 \<le> dfr d1" using assms(5) d1 by (rule dfr_bounds)
  have m: "dfr d1 \<le> dfr d2" using assms(5-7) by (rule dfr_mono)
  have sp: "0 < sfr (stock inp)" using sfr_bounds(1)[OF assms(3,4)] by simp
  have tp: "0 < ssr (seasonal inp)" using ssr_bounds(1)[of "seasonal inp"] by simp
  have "c * dfr d1 \<le> c * dfr d2" using m assms(2) by simp
  moreover have c0: "0 \<le> c * dfr d1" using f1 assms(2) by simp
  ultimately have a: "fle (fmul (Fin c) (Fin (dfr d1))) (fmul (Fin c) (Fin (dfr d2)))"
    by (simp add: round_double_mono)
  have a0: "fle (Fin 0) (fmul (Fin c) (Fin (dfr d1)))"
    using c0 by (simp add: round_double_nonneg)
  have b: "fle (fmul (fmul (Fin c) (Fin (dfr d1))) (Fin (sfr (stock inp))))
               (fmul (fmul (Fin c) (Fin (dfr d2))) (Fin (sfr (stock inp))))"
    using a0 a sp by (rule fmul_mono_left)
  have b0: "fle (Fin 0) (fmul (fmul (Fin c) (Fin (dfr d1))) (Fin (sfr (stock inp))))"
    using a0 sp by (rule fmul_nonneg)
  show ?thesis
    unfolding pre_of_def using fmul_mono_left[OF b0 b tp] by (simp add: assms(1))
qed

lemma pre_of_stock_antimono:
  assumes "competitor_price inp = Fin c" "0 < c" "0 \<le> demand inp" "demand inp \<le> 100"
    and "0 \<le> s1" "s1 \<le> s2" "s2 \<le> 100"
  shows "fle (pre_of (inp\<lparr>stock := s2\<rparr>)) (pre_of (inp\<lparr>stock := s1\<rparr>))"
proof -
  have s2: "0 \<le> s2" using assms by simp
  have f1: "1 \<le> dfr (demand inp)" using assms(3,4) by (rule dfr_bounds)
  have m: "sfr s2 \<le> sfr s1" using assms(5-7) by (rule sfr_antimono)
  have sp: "0 < sfr s2" using sfr_bounds(1)[OF s2 assms(7)] by simp
  have tp: "0 < ssr (seasonal inp)" using ssr_bounds(1)[of "seasonal inp"] by simp
  have c0: "0 \<le> c * dfr (demand inp)" using f1 assms(2) by simp
  have a0: "fle (Fin 0) (fmul (Fin c) (Fin (dfr (demand inp))))"
    using c0 by (simp add: round_double_nonneg)
  have b: "fle (fmul (fmul (Fin c) (Fin (dfr (demand inp)))) (Fin (sfr s2)))
               (fmul (fmul (Fin c) (Fin (dfr (demand inp)))) (Fin (sfr s1)))"
    using a0 sp m by (rule fmul_mono_right)
  have b0: "fle (Fin 0) (fmul (fmul (Fin c) (Fin (dfr (demand inp)))) (Fin (sfr s2)))"
    using a0 sp by (rule fmul_nonneg)
  show ?thesis
    unfolding pre_of_def using fmul_mono_left[OF b0 b tp] by (simp add: assms(1))
qed

lemma pre_of_seasonal_mono:
  assumes "competitor_price inp = Fin c" "0 < c" "0 \<le> demand inp" "demand inp \<le> 100"
    and "0 \<le> stock inp" "stock inp \<le> 100"
  shows "fle (pre_of (inp\<lparr>seasonal := False\<rparr>)) (pre_of (inp\<lparr>seasonal := True\<rparr>))"
proof -
  have f1: "1 \<le> dfr (demand inp)" using assms(3,4) by (rule dfr_bounds)
  have sp: "0 < sfr (stock inp)" using sfr_bounds(1)[OF assms(5,6)] by simp
  have c0: "0 \<le> c * dfr (demand inp)" using f1 assms(2) by simp
  have a0: "fle (Fin 0) (fmul (Fin c) (Fin (dfr (demand inp))))"
    using c0 by (simp add: round_double_nonneg)
  have b0: "fle (Fin 0) (fmul (fmul (Fin c) (Fin (dfr (demand inp)))) (Fin (sfr (stock inp))))"
    using a0 sp by (rule fmul_nonneg)
  have "(0::rat) < ssr False" "ssr False \<le> ssr True"
    using ssr_bounds(1)[of True] by (simp_all add: ssr_def)
  with b0 show ?thesis
    unfolding pre_of_def by (simp add: assms(1) fmul_mono_right)
qed

lemma pricing_valid:
  assumes "valid_input inp"
  shows "\<exists>r pm. dict_get gst_rates (category inp) = Inr r \<and>
           (category inp, r) \<in> set gst_rates \<and>
           margin_expr (profit_of inp r) (final_of inp r) = Inr pm \<and>
           pricing inp = Inr (bd_of inp r pm)"
proof -
  from assms have rng: "in_range inp" and cat: "category inp \<in> set (map fst gst_rates)"
    by (simp_all add: valid_input_def)
  from dict_get_total[OF cat] obtain r where
    r: "dict_get gst_rates (category inp) = Inr r" "(category inp, r) \<in> set gst_rates"
    by blast
  from pricing_total[OF rng r(1)] r show ?thesis by blast
qed

lemma valid_input_cp:
  assumes "valid_input inp"
  obtains c where "competitor_price inp = Fin c" "0 < c" "is_double c"
  using assms by (cases "competitor_price inp") (auto simp: valid_input_def)

lemma valid_demand_update:
  "valid_input inp \<Longrightarrow> 0 \<le> d \<Longrightarrow> d \<le> 100 \<Longrightarrow> valid_input (inp\<lparr>demand := d\<rparr>)"
  by (simp add: valid_input_def in_range_def)

lemma valid_stock_update:
  "valid_input inp \<Longrightarrow> 0 \<le> s \<Longrightarrow> s \<le> 100 \<Longrightarrow> valid_input (inp\<lparr>stock := s\<rparr>)"
  by (simp add: valid_input_def in_range_def)

lemma valid_seasonal_update:
  "valid_input inp \<Longrightarrow> valid_input (inp\<lparr>seasonal := t\<rparr>)"
  by (simp add: valid_input_def in_range_def)

lemma pricing_pre_of:
  assumes "valid_input inp"
  shows "\<exists>b. pricing inp = Inr b \<and> pre_gst_price b = pre_of inp"
  using pricing_valid[OF assms] by (auto simp: bd_of_def)

section \<open>Breakdowns with a finite pre-discount price\<close>

text \<open>
  When the pre-discount price of a valid input is finite it is a positive double, the
  discount is at most half of it, and the price after discount is a positive double.
\<close>

lemma pre_of_finite:
  assumes "competitor_price inp = Fin c" "0 < c" "is_double c" "in_range inp"
    and "pre_of inp = Fin p"
  shows "tiny \<le> p" and "is_double p"
proof -
  from assms(4) have rng: "0 \<le> demand inp" "demand inp \<le> 100" "0 \<le> stock inp" "stock inp \<le> 100"
    by (simp_all add: in_range_def)
  define df where "df = dfr (demand inp)"
  define sf where "sf = sfr (stock inp)"
  define ss where "ss = ssr (seasonal inp)"
  have df: "1 \<le> df" unfolding df_def using rng(1,2) by (rule dfr_bounds)
  have sf: "3 / 4 \<le> sf" unfolding sf_def using rng(3,4) by (rule sfr_bounds)
  have ss: "1 \<le> ss" unfolding ss_def by (rule ssr_bounds)
  have sfp: "0 < sf" using sf by simp
  have ssp: "0 < ss" using ss by simp
  have pre: "fmul (fmul (fmul (Fin c) (Fin df)) (Fin sf)) (Fin ss) = Fin p"
    using assms(5) by (simp add: pre_of_def assms(1) df_def sf_def ss_def)
  have c_tiny: "tiny \<le> c" using assms(3,2) by (rule is_double_ge_tiny)
  have "c * 1 \<le> c * df" using df assms(2) by (intro mult_left_mono) simp_all
  with c_tiny have x1: "tiny \<le> c * df" by simp
  then have x1n: "0 \<le> c * df" using tiny_pos by linarith
  have X1: "round_double (c * df) = Fin (rnd (c * df))"
  proof (rule ccontr)
    assume "round_double (c * df) \<noteq> Fin (rnd (c * df))"
    with round_double_nonneg_cases[OF x1n] have "round_double (c * df) = PInf" by blast
    with pre sfp ssp show False by simp
  qed
  define a1 where "a1 = rnd (c * df)"
  have a1: "tiny \<le> a1" unfolding a1_def using x1 by (rule tiny_le_rnd)
  have "3 / 4 * tiny \<le> sf * tiny" using sf tiny_pos by (intro mult_right_mono) simp_all
  also have "sf * tiny \<le> sf * a1" using a1 sfp by (intro mult_left_mono) simp_all
  finally have x2: "3 / 4 * tiny \<le> a1 * sf" by (simp add: mult.commute)
  then have x2n: "0 \<le> a1 * sf" using tiny_pos by linarith
  have pre2: "fmul (round_double (a1 * sf)) (Fin ss) = Fin p"
    using pre by (simp add: X1 a1_def)
  have X2: "round_double (a1 * sf) = Fin (rnd (a1 * sf))"
  proof (rule ccontr)
    assume "round_double (a1 * sf) \<noteq> Fin (rnd (a1 * sf))"
    with round_double_nonneg_cases[OF x2n] have "round_double (a1 * sf) = PInf" by blast
    with pre2 ssp show False by simp
  qed
  define a2 where "a2 = rnd (a1 * sf)"
  have a2: "tiny \<le> a2" unfolding a2_def using x2 by (rule tiny_le_rnd_three_quarters)
  have "a2 * 1 \<le> a2 * ss" using ss a2 tiny_pos by (intro mult_left_mono) simp_all
  with a2 have x3: "tiny \<le> a2 * ss" by simp
  then have x3n: "0 \<le> a2 * ss" using tiny_pos by linarith
  have pre3: "round_double (a2 * ss) = Fin p"
    using pre2 by (simp add: X2 a2_def)
  with round_double_nonneg_cases[OF x3n]
  have p: "p = rnd (a2 * ss)" "rnd (a2 * ss) < huge" by auto
  show "tiny \<le> p" unfolding p(1) using x3 by (rule tiny_le_rnd)
  show "is_double p" unfolding p(1) using x3n p(2) by (rule is_double_rnd)
qed

lemma disc_pad_chain:
  assumes "tiny \<le> p" "is_double p" "0 \<le> q" "q \<le> 1 / 2"
  shows "\<exists>d a. fmul (Fin p) (Fin q) = Fin d \<and> 0 \<le> d \<and>
               fsub (Fin p) (Fin d) = Fin a \<and> tiny \<le> a \<and> is_double a \<and>
               (q = 0 \<longrightarrow> d = 0 \<and> a = p)"
proof -
  have pp: "0 < p" using assms(1) tiny_pos by linarith
  have rp: "rnd p = p" using assms(2) by (simp add: is_double_def)
  have pq0: "0 \<le> p * q" using pp assms(3) by simp
  have "p * q \<le> p * (1 / 2)" using assms(4) pp by (intro mult_left_mono) simp_all
  then have pq1: "p * q \<le> p / 2" by simp
  then have pq2: "p * q \<le> p" using pp by linarith
  define d where "d = rnd (p * q)"
  have D: "fmul (Fin p) (Fin q) = Fin d"
    using round_double_bounded[OF pq0 pq2 assms(2)] by (simp add: d_def)
  have d0: "0 \<le> d" unfolding d_def using pq0 by (rule rnd_nonneg)
  have "d \<le> rnd (p / 2)" unfolding d_def using pq0 pq1 by (rule rnd_mono)
  also have "\<dots> < p" using assms(2) pp by (rule rnd_half_less)
  finally have "rnd (p * q) < rnd p" by (simp add: d_def rp)
  from grid_gap[OF this] have gap: "tiny \<le> p - d" by (simp add: d_def rp)
  then have pd0: "0 \<le> p - d" using tiny_pos by linarith
  have pd1: "p - d \<le> p" using d0 by simp
  define a where "a = rnd (p - d)"
  have A: "fsub (Fin p) (Fin d) = Fin a"
    using round_double_bounded[OF pd0 pd1 assms(2)] by (simp add: a_def)
  have a1: "tiny \<le> a" unfolding a_def using gap by (rule tiny_le_rnd)
  have "rnd (p - d) \<le> rnd p" using pd0 pd1 by (rule rnd_mono)
  moreover have "p < huge" using assms(2) unfolding is_double_def by linarith
  ultimately have "rnd (p - d) < huge" using rp by linarith
  with pd0 have a2: "is_double a" unfolding a_def by (rule is_double_rnd)
  have z: "q = 0 \<longrightarrow> d = 0 \<and> a = p" by (simp add: d_def a_def rnd_0 rp)
  from D d0 A a1 a2 z show ?thesis by blast
qed

lemma final_chain:
  assumes "tiny \<le> a" "is_double a" "0 \<le> t"
  shows "fgt_int (fadd (Fin a) (fmul (Fin a) (Fin t))) 0"
    and "t = 0 \<longrightarrow> fmul (Fin a) (Fin t) = Fin 0 \<and> fadd (Fin a) (fmul (Fin a) (Fin t)) = Fin a"
proof -
  have ap: "0 < a" using assms(1) tiny_pos by linarith
  have at0: "0 \<le> a * t" using ap assms(3) by simp
  show "fgt_int (fadd (Fin a) (fmul (Fin a) (Fin t))) 0"
  proof (cases "round_double (a * t) = PInf")
    case True
    then show ?thesis by simp
  next
    case False
    with round_double_nonneg_cases[OF at0]
    have g: "round_double (a * t) = Fin (rnd (a * t))" "0 \<le> rnd (a * t)" by auto
    have s: "tiny \<le> a + rnd (a * t)" using assms(1) g(2) by linarith
    then have s0: "0 \<le> a + rnd (a * t)" using tiny_pos by linarith
    have "0 < rnd (a + rnd (a * t))" using tiny_le_rnd[OF s] tiny_pos by linarith
    with round_double_nonneg_cases[OF s0] show ?thesis by (auto simp: g(1))
  qed
  show "t = 0 \<longrightarrow> fmul (Fin a) (Fin t) = Fin 0 \<and> fadd (Fin a) (fmul (Fin a) (Fin t)) = Fin a"
    using round_double_is_double[OF _ assms(2)] ap by (simp add: round_double_0)
qed

lemma gst_rates_values:
  assumes "(k, r) \<in> set gst_rates"
  shows "\<exists>t. r = Fin t \<and> 0 \<le> t \<and> t \<le> 1 / 2 \<and> (k = ''Essentials'' \<longrightarrow> t = 0)"
proof -
  have b: "float_lit x = Fin (rnd x) \<and> 0 \<le> rnd x \<and> rnd x \<le> 1 / 2"
    if "0 \<le> x" "x \<le> 1 / 2" for x
  proof -
    have "x \<le> 1" using that by simp
    with that(1) have "float_lit x = Fin (rnd x)" using is_double_1 by (rule float_lit_bounded)
    moreover have "0 \<le> rnd x" using that(1) by (rule rnd_nonneg)
    moreover have "rnd x \<le> rnd (1 / 2)" using that by (rule rnd_mono)
    ultimately show ?thesis by (simp add: rnd_half)
  qed
  have e: "float_lit 0 = Fin 0" by (simp add: float_lit_def round_double_0)
  from assms consider "k = ''Essentials''" "r = float_lit 0"
    | "k \<noteq> ''Essentials''" "r = float_lit (5 / 100)"
    | "k \<noteq> ''Essentials''" "r = float_lit (12 / 100)"
    | "k \<noteq> ''Essentials''" "r = float_lit (18 / 100)"
    | "k \<noteq> ''Essentials''" "r = float_lit (28 / 100)"
    by (auto simp: gst_rates_def)
  then show ?thesis
  proof cases
    case 1
    then show ?thesis by (simp add: e)
  next
    case 2
    then show ?thesis using b[of "5 / 100"] by simp
  next
    case 3
    then show ?thesis using b[of "12 / 100"] by simp
  next
    case 4
    then show ?thesis using b[of "18 / 100"] by simp
  next
    case 5
    then show ?thesis using b[of "28 / 100"] by simp
  qed
qed

lemma finite_chain:
  assumes "valid_input inp" "pricing inp = Inr b" "is_finite (pre_gst_price b)"
  shows "\<exists>t p d a.
           gst_rate b = Fin t \<and> 0 \<le> t \<and> t \<le> 1 / 2 \<and> (category inp = ''Essentials'' \<longrightarrow> t = 0) \<and>
           pre_gst_price b = Fin p \<and> tiny \<le> p \<and> is_double p \<and>
           discount_amount b = Fin d \<and> 0 \<le> d \<and>
           price_after_discount b = Fin a \<and> tiny \<le> a \<and> is_double a \<and>
           (discount inp = 0 \<longrightarrow> d = 0 \<and> a = p) \<and>
           gst_amount b = fmul (Fin a) (Fin t) \<and>
           final_price b = fadd (Fin a) (fmul (Fin a) (Fin t)) \<and>
           margin_expr (profit b) (final_price b) = Inr (profit_margin b)"
proof -
  from pricing_valid[OF assms(1)] assms(2) obtain r pm where
    r: "(category inp, r) \<in> set gst_rates" and
    pm: "margin_expr (profit_of inp r) (final_of inp r) = Inr pm" and
    b: "b = bd_of inp r pm" by auto
  from gst_rates_values[OF r] obtain t where
    t: "r = Fin t" "0 \<le> t" "t \<le> 1 / 2" "category inp = ''Essentials'' \<longrightarrow> t = 0" by blast
  from assms(3) obtain p where p: "pre_of inp = Fin p"
    by (cases "pre_of inp") (simp_all add: b bd_of_def)
  from assms(1) obtain c where c: "competitor_price inp = Fin c" "0 < c" "is_double c"
    by (rule valid_input_cp)
  from assms(1) have rng: "in_range inp" by (simp add: valid_input_def)
  note pf = pre_of_finite[OF c rng p]
  from rng have dr: "0 \<le> discount inp" "discount inp \<le> 50" "discount inp \<le> 100"
    by (simp_all add: in_range_def)
  have q: "0 \<le> quot100 (discount inp)" "quot100 (discount inp) \<le> 1 / 2"
    using quot100_bounds(1)[OF dr(1,3)] quot100_le_half[OF dr(1,2)] by simp_all
  from disc_pad_chain[OF pf q] obtain d a where
    da: "fmul (Fin p) (Fin (quot100 (discount inp))) = Fin d" "0 \<le> d"
      "fsub (Fin p) (Fin d) = Fin a" "tiny \<le> a" "is_double a"
      "quot100 (discount inp) = 0 \<longrightarrow> d = 0 \<and> a = p" by blast
  have z: "discount inp = 0 \<longrightarrow> d = 0 \<and> a = p" using da(6) by (simp add: quot100_0)
  have dd: "disc_of inp = Fin d" unfolding disc_of_def p da(1) ..
  have "pad_of inp = Fin a" unfolding pad_of_def p dd da(3) ..
  with dd show ?thesis
    using t p pf da(2,4,5) z pm
    by (simp add: b bd_of_def gst_of_def final_of_def profit_of_def)
qed

section \<open>The breakdowns of the concrete inputs\<close>

lemma pricing_eval:
  assumes rng: "in_range inp"
    and r: "dict_get gst_rates (category inp) = Inr (Fin r)"
    and c: "competitor_price inp = Fin c" and k: "cost_price inp = Fin k"
    and df: "dfr (demand inp) = df" and sf: "sfr (stock inp) = sf"
    and ss: "ssr (seasonal inp) = ss"
    and t1: "fmul (Fin c) (Fin df) = Fin t1" and t2: "fmul (Fin t1) (Fin sf) = Fin t2"
    and p: "fmul (Fin t2) (Fin ss) = Fin p"
    and q: "quot100 (discount inp) = q"
    and d: "fmul (Fin p) (Fin q) = Fin d" and a: "fsub (Fin p) (Fin d) = Fin a"
    and g: "fmul (Fin a) (Fin r) = Fin g" and f: "fadd (Fin a) (Fin g) = Fin f"
    and pr: "fsub (Fin f) (Fin k) = Fin pr"
    and fpos: "0 < f"
    and qq: "py_truediv (Fin pr) (Fin f) = Inr (Fin qq)"
    and m: "fmul (Fin qq) (Fin 100) = Fin m"
  shows "pricing inp =
    Inr \<lparr>base_price = Fin c, demand_factor = Fin df, stock_factor = Fin sf,
         seasonal_factor = (if seasonal inp then PyFloat (float_lit (11 / 10)) else PyInt 1),
         gst_rate = Fin r, pre_gst_price = Fin p, discount_amount = Fin d,
         price_after_discount = Fin a, gst_amount = Fin g, final_price = Fin f,
         profit = Fin pr, profit_margin = PyFloat (Fin m)\<rparr>"
proof -
  have pre: "pre_of inp = Fin p" unfolding pre_of_def c df sf ss t1 t2 p ..
  have disc: "disc_of inp = Fin d" unfolding disc_of_def pre q d ..
  have pad: "pad_of inp = Fin a" unfolding pad_of_def pre disc a ..
  have gst: "gst_of inp (Fin r) = Fin g" unfolding gst_of_def pad g ..
  have fin: "final_of inp (Fin r) = Fin f" unfolding final_of_def pad gst f ..
  have prof: "profit_of inp (Fin r) = Fin pr" unfolding profit_of_def fin k pr ..
  have gt: "fgt_int (Fin f) 0" using fpos by simp
  have me: "margin_expr (Fin pr) (Fin f) = Inr (PyFloat (Fin m))"
    unfolding margin_expr_def float_of_int_100 qq ebind_Inr m using gt by simp
  show ?thesis
    unfolding pricing_unfold[OF rng r] prof fin me ebind_Inr bd_of_def pre disc pad gst c df sf
    ..
qed

lemma gst_electronics:
  "dict_get gst_rates ''Electronics'' = Inr (Fin (3242591731706757 / 18014398509481984))"
proof -
  have "float_lit (18 / 100) = Fin (3242591731706757 / 18014398509481984)"
    by (rule float_lit_eval) (code_simp, simp)
  then show ?thesis by (simp add: dict_get_def gst_rates_def)
qed

lemma scenario1_pricing: "pricing scenario1 = Inr scenario1_breakdown"
proof -
  have s: "seasonal scenario1 = False" by (simp add: scenario1_def)
  have "pricing scenario1 =
    Inr \<lparr>base_price = Fin 100,
      demand_factor = Fin (2476979795053773 / 2251799813685248),
      stock_factor = Fin (4165829655317709 / 4503599627370496),
      seasonal_factor = (if seasonal scenario1 then PyFloat (float_lit (11 / 10)) else PyInt 1),
      gst_rate = Fin (3242591731706757 / 18014398509481984),
      pre_gst_price = Fin (7160019720077313 / 70368744177664),
      discount_amount = Fin 0,
      price_after_discount = Fin (7160019720077313 / 70368744177664),
      gst_amount = Fin (5155214198455665 / 281474976710656),
      final_price = Fin (8448823269691229 / 70368744177664),
      profit = Fin (4930386060808029 / 70368744177664),
      profit_margin = PyFloat (Fin (128325960438305 / 2199023255552))\<rparr>"
  proof (rule pricing_eval[where c = 100 and k = 50 and ss = 1 and q = 0
        and ?t1.0 = "7740561859543041 / 70368744177664"
        and ?t2.0 = "7160019720077313 / 70368744177664"
        and qq = "5256231339552973 / 9007199254740992"])
    show "in_range scenario1" by (simp add: in_range_def scenario1_def)
    show "dict_get gst_rates (category scenario1)
          = Inr (Fin (3242591731706757 / 18014398509481984))"
      using gst_electronics by (simp add: scenario1_def)
    show "competitor_price scenario1 = Fin 100" by (simp add: scenario1_def)
    show "cost_price scenario1 = Fin 50" by (simp add: scenario1_def)
    show "dfr (demand scenario1) = 2476979795053773 / 2251799813685248"
      using dfr_50 by (simp add: scenario1_def)
    show "sfr (stock scenario1) = 4165829655317709 / 4503599627370496"
      using sfr_50 by (simp add: scenario1_def)
    show "ssr (seasonal scenario1) = 1" by (simp add: scenario1_def ssr_def)
    show "quot100 (discount scenario1) = 0" by (simp add: scenario1_def quot100_0)
    show "fmul (Fin 100) (Fin (2476979795053773 / 2251799813685248))
          = Fin (7740561859543041 / 70368744177664)"
      by (rule fmul_eval) (code_simp, simp)
    show "fmul (Fin (7740561859543041 / 70368744177664))
            (Fin (4165829655317709 / 4503599627370496))
          = Fin (7160019720077313 / 70368744177664)"
      by (rule fmul_eval) (code_simp, simp)
    show "fmul (Fin (7160019720077313 / 70368744177664)) (Fin 1)
          = Fin (7160019720077313 / 70368744177664)"
      by (rule fmul_eval) (code_simp, simp)
    show "fmul (Fin (7160019720077313 / 70368744177664)) (Fin 0) = Fin 0"
      by (rule fmul_eval) (code_simp, simp)
    show "fsub (Fin (7160019720077313 / 70368744177664)) (Fin 0)
          = Fin (7160019720077313 / 70368744177664)"
      by (rule fsub_eval) (code_simp, simp)
    show "fmul (Fin (7160019720077313 / 70368744177664))
            (Fin (3242591731706757 / 18014398509481984))
          = Fin (5155214198455665 / 281474976710656)"
      by (rule fmul_eval) (code_simp, simp)
    show "fadd (Fin (7160019720077313 / 70368744177664))
            (Fin (5155214198455665 / 281474976710656))
          = Fin (8448823269691229 / 70368744177664)"
      by (rule fadd_eval) (code_simp, simp)
    show "fsub (Fin (8448823269691229 / 70368744177664)) (Fin 50)
          = Fin (4930386060808029 / 70368744177664)"
      by (rule fsub_eval) (code_simp, simp)
    show "(0::rat) < 8448823269691229 / 70368744177664" by simp
    show "py_truediv (Fin (4930386060808029 / 70368744177664))
            (Fin (8448823269691229 / 70368744177664))
          = Inr (Fin (5256231339552973 / 9007199254740992))"
      by (rule truediv_eval) (simp, code_simp, simp)
    show "fmul (Fin (5256231339552973 / 9007199254740992)) (Fin 100)
          = Fin (128325960438305 / 2199023255552)"
      by (rule fmul_eval) (code_simp, simp)
  qed
  then show ?thesis by (simp add: scenario1_breakdown_def s)
qed

lemma gst_essentials: "dict_get gst_rates ''Essentials'' = Inr (Fin 0)"
  by (simp add: dict_get_def gst_rates_def float_lit_def round_double_0)

lemma dfr_40: "dfr 40 = 607985949695017 / 562949953421312"
proof -
  have q: "quot100 40 = 3602879701896397 / 9007199254740992"
    unfolding quot100_def by code_simp
  have a: "rnd (3602879701896397 / 9007199254740992 * (3602879701896397 / 18014398509481984))
           = 1441151880758559 / 18014398509481984" by code_simp
  have b: "rnd (1 + 1441151880758559 / 18014398509481984)
           = 607985949695017 / 562949953421312" by code_simp
  show ?thesis by (simp only: dfr_def q lit02_val a b)
qed

lemma sfr_80: "sfr 80 = 7926335344172073 / 9007199254740992"
proof -
  have q: "quot100 80 = 3602879701896397 / 4503599627370496"
    unfolding quot100_def by code_simp
  have a: "rnd (3602879701896397 / 4503599627370496 * (5404319552844595 / 36028797018963968))
           = 1080863910568919 / 9007199254740992" by code_simp
  have b: "rnd (1 - 1080863910568919 / 9007199254740992)
           = 7926335344172073 / 9007199254740992" by code_simp
  show ?thesis by (simp only: sfr_def q lit015_val a b)
qed

lemma quot100_30: "quot100 30 = 5404319552844595 / 18014398509481984"
  unfolding quot100_def by code_simp

lemma scenario2_pricing: "pricing scenario2 = Inr scenario2_breakdown"
proof -
  have s: "seasonal scenario2 = False" by (simp add: scenario2_def)
  have "pricing scenario2 =
    Inr \<lparr>base_price = Fin 200,
      demand_factor = Fin (607985949695017 / 562949953421312),
      stock_factor = Fin (7926335344172073 / 9007199254740992),
      seasonal_factor = (if seasonal scenario2 then PyFloat (float_lit (11 / 10)) else PyInt 1),
      gst_rate = Fin 0,
      pre_gst_price = Fin (6687845446645187 / 35184372088832),
      discount_amount = Fin (501588408498389 / 8796093022208),
      price_after_discount = Fin (4681491812651631 / 35184372088832),
      gst_amount = Fin 0,
      final_price = Fin (4681491812651631 / 35184372088832),
      profit = Fin (1163054603768431 / 35184372088832),
      profit_margin = PyFloat (Fin (6992872798030489 / 281474976710656))\<rparr>"
  proof (rule pricing_eval[where c = 200 and k = 100 and ss = 1
        and q = "5404319552844595 / 18014398509481984"
        and ?t1.0 = 216
        and ?t2.0 = "6687845446645187 / 35184372088832"
        and qq = "4475438590739513 / 18014398509481984"])
    show "in_range scenario2" by (simp add: in_range_def scenario2_def)
    show "dict_get gst_rates (category scenario2) = Inr (Fin 0)"
      using gst_essentials by (simp add: scenario2_def)
    show "competitor_price scenario2 = Fin 200" by (simp add: scenario2_def)
    show "cost_price scenario2 = Fin 100" by (simp add: scenario2_def)
    show "dfr (demand scenario2) = 607985949695017 / 562949953421312"
      using dfr_40 by (simp add: scenario2_def)
    show "sfr (stock scenario2) = 7926335344172073 / 9007199254740992"
      using sfr_80 by (simp add: scenario2_def)
    show "ssr (seasonal scenario2) = 1" by (simp add: scenario2_def ssr_def)
    show "quot100 (discount scenario2) = 5404319552844595 / 18014398509481984"
      using quot100_30 by (simp add: scenario2_def)
    show "fmul (Fin 200) (Fin (607985949695017 / 562949953421312)) = Fin 216"
      by (rule fmul_eval) (code_simp, simp)
    show "fmul (Fin 216) (Fin (7926335344172073 / 9007199254740992))
          = Fin (6687845446645187 / 35184372088832)"
      by (rule fmul_eval) (code_simp, simp)
    show "fmul (Fin (6687845446645187 / 35184372088832)) (Fin 1)
          = Fin (6687845446645187 / 35184372088832)"
      by (rule fmul_eval) (code_simp, simp)
    show "fmul (Fin (6687845446645187 / 35184372088832))
            (Fin (5404319552844595 / 18014398509481984))
          = Fin (501588408498389 / 8796093022208)"
      by (rule fmul_eval) (code_simp, simp)
    show "fsub (Fin (6687845446645187 / 35184372088832)) (Fin (501588408498389 / 8796093022208))
          = Fin (4681491812651631 / 35184372088832)"
      by (rule fsub_eval) (code_simp, simp)
    show "fmul (Fin (4681491812651631 / 35184372088832)) (Fin 0) = Fin 0"
      by (rule fmul_eval) (code_simp, simp)
    show "fadd (Fin (4681491812651631 / 35184372088832)) (Fin 0)
          = Fin (4681491812651631 / 35184372088832)"
      by (rule fadd_eval) (code_simp, simp)
    show "fsub (Fin (4681491812651631 / 35184372088832)) (Fin 100)
          = Fin (1163054603768431 / 35184372088832)"
      by (rule fsub_eval) (code_simp, simp)
    show "(0::rat) < 4681491812651631 / 35184372088832" by simp
    show "py_truediv (Fin (1163054603768431 / 35184372088832))
            (Fin (4681491812651631 / 35184372088832))
          = Inr (Fin (4475438590739513 / 18014398509481984))"
      by (rule truediv_eval) (simp, code_simp, simp)
    show "fmul (Fin (4475438590739513 / 18014398509481984)) (Fin 100)
          = Fin (6992872798030489 / 281474976710656)"
      by (rule fmul_eval) (code_simp, simp)
  qed
  then show ?thesis by (simp add: scenario2_breakdown_def s)
qed

lemma valid_scenario2: "valid_input scenario2"
  by (simp add: valid_input_def scenario2_def in_range_def is_double_100
      is_double_of_nat[of 200, simplified] gst_rates_def)

lemma dfr_100: "dfr 100 = 5404319552844595 / 4503599627370496"
proof -
  have a: "rnd (1 * (3602879701896397 / 18014398509481984))
           = 3602879701896397 / 18014398509481984" by code_simp
  have b: "rnd (1 + 3602879701896397 / 18014398509481984)
           = 5404319552844595 / 4503599627370496" by code_simp
  show ?thesis by (simp only: dfr_def quot100_100 lit02_val a b)
qed

lemma sfr_0: "sfr 0 = 1"
  by (simp add: sfr_def quot100_0 rnd_0 rnd_1)

lemma is_double_overflow_price: "is_double (7 * 2 ^ 1021)"
proof -
  have "rnd (of_int 7 * 2 powi 1021) = of_int 7 * 2 powi 1021"
    by (rule rnd_repr) simp_all
  then have "rnd (7 * 2 ^ 1021) = 7 * 2 ^ 1021" by simp
  moreover have "\<bar>7 * 2 ^ 1021 :: rat\<bar> < huge" by (simp add: huge_def)
  ultimately show ?thesis unfolding is_double_def by blast
qed

lemma valid_overflow_input: "valid_input overflow_input"
  using is_double_overflow_price is_double_of_nat[of 0]
  by (simp add: valid_input_def overflow_input_def in_range_def gst_rates_def)

lemma overflow_pre: "pre_of overflow_input = PInf"
proof -
  have "huge \<le> 7 * 2 ^ 1021 * (5404319552844595 / 4503599627370496)"
    by (simp add: huge_def)
  then have "fmul (Fin (7 * 2 ^ 1021)) (Fin (5404319552844595 / 4503599627370496)) = PInf"
    unfolding fmul.simps by (rule round_double_overflow)
  then show ?thesis
    unfolding pre_of_def by (simp add: overflow_input_def dfr_100 sfr_0 ssr_def)
qed

lemma overflow_pricing: "pricing overflow_input = Inr overflow_breakdown"
proof -
  have rng: "in_range overflow_input" by (simp add: in_range_def overflow_input_def)
  have r: "dict_get gst_rates (category overflow_input) = Inr (Fin 0)"
    using gst_essentials by (simp add: overflow_input_def)
  have dq: "quot100 (discount overflow_input) = 0"
    by (simp add: overflow_input_def quot100_0)
  have disc: "disc_of overflow_input = NaN" unfolding disc_of_def overflow_pre dq by simp
  have pad: "pad_of overflow_input = NaN" unfolding pad_of_def overflow_pre disc by simp
  have gst: "gst_of overflow_input (Fin 0) = NaN" unfolding gst_of_def pad by simp
  have fin: "final_of overflow_input (Fin 0) = NaN" unfolding final_of_def pad gst by simp
  have prof: "profit_of overflow_input (Fin 0) = NaN" unfolding profit_of_def fin by simp
  have me: "margin_expr NaN NaN = Inr (PyInt 0)" by (simp add: margin_expr_def)
  have fields: "competitor_price overflow_input = Fin (7 * 2 ^ 1021)"
    "dfr (demand overflow_input) = 5404319552844595 / 4503599627370496"
    "sfr (stock overflow_input) = 1" "seasonal overflow_input = False"
    by (simp_all add: overflow_input_def dfr_100 sfr_0)
  show ?thesis
    unfolding pricing_unfold[OF rng r] prof fin me ebind_Inr bd_of_def overflow_pre disc pad gst
      fields overflow_breakdown_def
    by simp
qed

lemma clearance_input: "pricing_input_of clearance_widgets = scenario2"
  by (simp add: pricing_input_of_def scenario_settings_def clearance_widgets_def scenario2_def)

lemma float_lit_exact: "0 \<le> x \<Longrightarrow> is_double x \<Longrightarrow> float_lit x = Fin x"
  by (simp add: float_lit_def round_double_is_double)

lemma is_double_101_75: "is_double (10175 / 100)"
proof -
  have "rnd (of_int 407 * 2 powi (- 2)) = of_int 407 * 2 powi (- 2)"
    by (rule rnd_repr) simp_all
  then have "rnd (10175 / 100) = 10175 / 100" by simp
  moreover have "\<bar>10175 / 100 :: rat\<bar> < huge" by (simp add: huge_def)
  ultimately show ?thesis unfolding is_double_def by blast
qed

lemma zero_price_pricing: "pricing zero_price_input = Inr zero_price_breakdown"
proof -
  have rng: "in_range zero_price_input" by (simp add: in_range_def zero_price_input_def)
  have r: "dict_get gst_rates (category zero_price_input)
           = Inr (Fin (3242591731706757 / 18014398509481984))"
    using gst_electronics by (simp add: zero_price_input_def)
  have fields: "competitor_price zero_price_input = Fin 0"
    "dfr (demand zero_price_input) = 2476979795053773 / 2251799813685248"
    "sfr (stock zero_price_input) = 4165829655317709 / 4503599627370496"
    "seasonal zero_price_input = False" "quot100 (discount zero_price_input) = 0"
    "cost_price zero_price_input = Fin 50"
    by (simp_all add: zero_price_input_def dfr_50 sfr_50 quot100_0)
  have pre: "pre_of zero_price_input = Fin 0"
    unfolding pre_of_def fields by (simp add: round_double_0)
  have disc: "disc_of zero_price_input = Fin 0"
    unfolding disc_of_def pre fields by (simp add: round_double_0)
  have pad: "pad_of zero_price_input = Fin 0"
    unfolding pad_of_def pre disc by (simp add: round_double_0)
  have gst: "gst_of zero_price_input (Fin (3242591731706757 / 18014398509481984)) = Fin 0"
    unfolding gst_of_def pad by (simp add: round_double_0)
  have fin: "final_of zero_price_input (Fin (3242591731706757 / 18014398509481984)) = Fin 0"
    unfolding final_of_def pad gst by (simp add: round_double_0)
  have "fsub (Fin 0) (Fin 50) = Fin (- 50)"
    by (rule fsub_eval) (code_simp, simp)
  then have prof: "profit_of zero_price_input (Fin (3242591731706757 / 18014398509481984))
                   = Fin (- 50)"
    unfolding profit_of_def fin fields .
  have me: "margin_expr (Fin (- 50)) (Fin 0) = Inr (PyInt 0)" by (simp add: margin_expr_def)
  show ?thesis
    unfolding pricing_unfold[OF rng r] prof fin me ebind_Inr bd_of_def pre disc pad gst
      fields zero_price_breakdown_def
    by simp
qed

section \<open>Bounds on the factors\<close>

lemma gst_rates_le:
  assumes "(k, r) \<in> set gst_rates"
  shows "fle (Fin 0) r \<and> fle r (float_lit (28 / 100))"
proof -
  have top: "float_lit (28 / 100) = Fin (rnd (28 / 100))"
    by (rule float_lit_bounded[OF _ _ is_double_1]) simp_all
  have b: "float_lit x = Fin (rnd x) \<and> 0 \<le> rnd x \<and> rnd x \<le> rnd (28 / 100)"
    if "0 \<le> x" "x \<le> 28 / 100" for x
  proof -
    have "x \<le> 1" using that by simp
    with that(1) have "float_lit x = Fin (rnd x)" using is_double_1 by (rule float_lit_bounded)
    moreover have "0 \<le> rnd x" using that(1) by (rule rnd_nonneg)
    moreover have "rnd x \<le> rnd (28 / 100)" using that by (rule rnd_mono)
    ultimately show ?thesis by simp
  qed
  from assms consider "r = float_lit 0" | "r = float_lit (5 / 100)" | "r = float_lit (12 / 100)"
    | "r = float_lit (18 / 100)" | "r = float_lit (28 / 100)"
    by (auto simp: gst_rates_def)
  then show ?thesis
  proof cases
    case 1
    then show ?thesis using b[of 0] top by simp
  next
    case 2
    then show ?thesis using b[of "5 / 100"] top by simp
  next
    case 3
    then show ?thesis using b[of "12 / 100"] top by simp
  next
    case 4
    then show ?thesis using b[of "18 / 100"] top by simp
  next
    case 5
    then show ?thesis using b[of "28 / 100"] top by simp
  qed
qed

lemma sfr_100: "sfr 100 = 7656119366529843 / 9007199254740992"
proof -
  have a: "rnd (1 * (5404319552844595 / 36028797018963968))
           = 5404319552844595 / 36028797018963968" by code_simp
  have b: "rnd (1 - 5404319552844595 / 36028797018963968)
           = 7656119366529843 / 9007199254740992" by code_simp
  show ?thesis by (simp only: sfr_def quot100_100 lit015_val a b)
qed

lemma factor_bounds:
  assumes "in_range inp"
  shows "fle (Fin 1) (Fin (dfr (demand inp)))"
    and "fle (Fin (dfr (demand inp))) (float_lit (12 / 10))"
    and "fle (float_lit (85 / 100)) (Fin (sfr (stock inp)))"
    and "fle (Fin (sfr (stock inp))) (Fin 1)"
    and "int_truediv (discount inp) 100 = Inr (Fin (quot100 (discount inp)))"
    and "fle (Fin 0) (Fin (quot100 (discount inp)))"
    and "fle (Fin (quot100 (discount inp))) (float_lit (5 / 10))"
proof -
  from assms have rng: "0 \<le> demand inp" "demand inp \<le> 100" "0 \<le> stock inp" "stock inp \<le> 100"
    "0 \<le> discount inp" "discount inp \<le> 50" "discount inp \<le> 100"
    by (simp_all add: in_range_def)
  have l12: "float_lit (12 / 10) = Fin (5404319552844595 / 4503599627370496)"
    by (rule float_lit_eval) (code_simp, simp)
  have l85: "float_lit (85 / 100) = Fin (7656119366529843 / 9007199254740992)"
    by (rule float_lit_eval) (code_simp, simp)
  have l05: "float_lit (5 / 10) = Fin (1 / 2)"
    by (rule float_lit_eval) (code_simp, simp)
  show "fle (Fin 1) (Fin (dfr (demand inp)))" using dfr_bounds(1)[OF rng(1,2)] by simp
  have "dfr (demand inp) \<le> dfr 100" using rng(1,2) by (intro dfr_mono) simp_all
  then show "fle (Fin (dfr (demand inp))) (float_lit (12 / 10))"
    unfolding l12 by (simp add: dfr_100)
  have "sfr 100 \<le> sfr (stock inp)" using rng(3,4) by (intro sfr_antimono) simp_all
  then show "fle (float_lit (85 / 100)) (Fin (sfr (stock inp)))"
    unfolding l85 by (simp add: sfr_100)
  show "fle (Fin (sfr (stock inp))) (Fin 1)" using sfr_bounds(2)[OF rng(3,4)] by simp
  show "int_truediv (discount inp) 100 = Inr (Fin (quot100 (discount inp)))"
    using rng(5,7) by (rule int_truediv_100)
  show "fle (Fin 0) (Fin (quot100 (discount inp)))" using quot100_bounds(1)[OF rng(5,7)] by simp
  show "fle (Fin (quot100 (discount inp))) (float_lit (5 / 10))"
    unfolding l05 using quot100_le_half[OF rng(5,6)] by simp
qed

section \<open>The session history\<close>

lemma history_init: "history (init_history st) = Some (prior st)"
  by (cases "history st") (simp_all add: init_history_def prior_def)

lemma history_append_Some:
  "history st = Some h \<Longrightarrow> history_append st e = Inr (st\<lparr>history := Some (h @ [e])\<rparr>)"
  by (simp add: history_append_def)

lemma float_round_eval:
  assumes "rhe (x * 10 ^ nd) = n" "rnd (of_int n / 10 ^ nd) = y" "\<bar>y\<bar> \<le> 1048576"
  shows "float_round (Fin x) nd = Inr (Fin y)"
  using round_double_eval[OF assms(2,3)] by (simp add: assms(1))

lemma scenario1_round_final:
  "py_round (PyFloat (final_price scenario1_breakdown)) 2
   = Inr (PyFloat (Fin (2112293778353029 / 17592186044416)))"
proof -
  have "float_round (Fin (8448823269691229 / 70368744177664)) 2
        = Inr (Fin (2112293778353029 / 17592186044416))"
    by (rule float_round_eval[where n = 12007]) (code_simp, code_simp, simp)
  then show ?thesis by (simp add: scenario1_breakdown_def ebind_Inr)
qed

lemma scenario1_round_margin:
  "py_round (profit_margin scenario1_breakdown) 2
   = Inr (PyFloat (Fin (4106719910208471 / 70368744177664)))"
proof -
  have "float_round (Fin (128325960438305 / 2199023255552)) 2
        = Inr (Fin (4106719910208471 / 70368744177664))"
    by (rule float_round_eval[where n = 5836]) (code_simp, code_simp, simp)
  then show ?thesis by (simp add: scenario1_breakdown_def ebind_Inr)
qed

lemma scenario1_widgets_input: "pricing_input_of scenario1_widgets = scenario1"
  by (simp add: pricing_input_of_def scenario_settings_def scenario1_widgets_def scenario1_def)

lemma scenario1_run:
  "run_script \<lparr>history = None\<rparr> scenario1_widgets
   = (\<lparr>history = Some [scenario1_entry]\<rparr>, Inr scenario1_breakdown)"
proof -
  have "save_recommendation (init_history \<lparr>history = None\<rparr>) scenario1_widgets scenario1_breakdown
        = Inr \<lparr>history = Some [scenario1_entry]\<rparr>"
    unfolding save_recommendation_def scenario1_round_final scenario1_round_margin ebind_Inr
    by (simp add: history_append_def init_history_def scenario1_entry_def scenario1_widgets_def)
  moreover have "save_button scenario1_widgets" by (simp add: scenario1_widgets_def)
  ultimately show ?thesis
    unfolding run_script_def Let_def scenario1_widgets_input scenario1_pricing by simp
qed


lemma run_script_InrD:
  assumes "run_script st w = (st', Inr b)"
  shows "pricing (pricing_input_of w) = Inr b"
    and "save_button w \<Longrightarrow> save_recommendation (init_history st) w b = Inr st'"
    and "\<not> save_button w \<Longrightarrow> st' = init_history st"
proof -
  from assms show p: "pricing (pricing_input_of w) = Inr b"
    by (cases "pricing (pricing_input_of w)")
       (auto simp: run_script_def Let_def split: if_splits sum.splits)
  from assms p show "save_button w \<Longrightarrow> save_recommendation (init_history st) w b = Inr st'"
    by (cases "save_recommendation (init_history st) w b") (auto simp: run_script_def Let_def)
  from assms p show "\<not> save_button w \<Longrightarrow> st' = init_history st"
    by (auto simp: run_script_def Let_def)
qed

text \<open>
  Rounding is symmetric in the sign. Rounding a finite double to two decimals never leaves
  the double range, so \<^verbatim>\<open>round\<close> raises nothing on the results of the calculation and a run
  of the script on a valid input completes.
\<close>

lemma rhe_minus: "rhe (- x) = - rhe x"
proof (cases "x = of_int \<lfloor>x\<rfloor>")
  case True
  then obtain n where n: "x = of_int n" by blast
  have "rhe (of_int (- n)) = - n" by (rule rhe_of_int)
  then show ?thesis by (simp add: n rhe_of_int)
next
  case False
  have fl: "of_int \<lfloor>x\<rfloor> \<le> x" "x < of_int \<lfloor>x\<rfloor> + 1" by linarith+
  have lt: "of_int \<lfloor>x\<rfloor> < x"
    using False by (metis of_int_floor_le order_le_less)
  have "\<lfloor>- x\<rfloor> = - \<lfloor>x\<rfloor> - 1"
    using lt fl(2) by (intro floor_unique) simp_all
  then show ?thesis using lt fl(2)
    by (auto simp: rhe_def Let_def)
qed

lemma quantum_minus: "quantum (- x) = quantum x"
  by (simp add: quantum_def expo_def)

lemma rnd_minus: "rnd (- x) = - rnd x"
  by (simp add: rnd_def quantum_minus rhe_minus)

lemma rnd_abs: "\<bar>rnd x\<bar> = rnd \<bar>x\<bar>"
proof (cases "0 \<le> x")
  case True
  then show ?thesis using rnd_nonneg[of x] by simp
next
  case False
  then have "0 \<le> - x" by simp
  then have "0 \<le> rnd (- x)" by (rule rnd_nonneg)
  then show ?thesis using False by (simp add: rnd_minus)
qed

lemma rnd_idem_all: "rnd (rnd x) = rnd x"
proof (cases "0 \<le> x")
  case True
  then show ?thesis by (rule rnd_idem)
next
  case False
  then have "rnd (rnd (- x)) = rnd (- x)" by (intro rnd_idem) simp
  then show ?thesis by (simp add: rnd_minus)
qed

lemma round_double_Fin:
  assumes "\<bar>rnd x\<bar> < huge"
  shows "round_double x = Fin (rnd x)"
  using assms by (auto simp: round_double_def Let_def)

lemma round_double_FinD:
  assumes "round_double z = Fin x"
  shows "x = rnd z" and "\<bar>rnd z\<bar> < huge"
  using assms huge_pos by (auto simp: round_double_def Let_def split: if_splits)

lemma rnd_large_int:
  assumes "0 \<le> z" "2 ^ 53 \<le> rnd z"
  shows "\<exists>n. rnd z = of_int n"
proof -
  have zp: "0 < z" using assms by (cases "z = 0") (simp_all add: rnd_0)
  have "rnd z \<le> 2 powi (expo z + 1)" using zp by (rule rnd_upper)
  with assms(2) have "(2::rat) powi 53 \<le> 2 powi (expo z + 1)" by simp
  then have "53 \<le> expo z + 1"
    using power_int_strict_increasing[of "expo z + 1" 53 "2::rat"]
    by (cases "53 \<le> expo z + 1") auto
  then have e: "0 \<le> expo z - 52" by simp
  have "quantum z = 2 ^ nat (expo z - 52)"
    using e by (simp add: quantum_def power_int_nonneg_exp)
  then have "rnd z = of_int (rhe (z / quantum z) * 2 ^ nat (expo z - 52))"
    by (simp add: rnd_def)
  then show ?thesis by blast
qed

lemma rnd_bound_small:
  assumes "0 \<le> y" "y \<le> 2 ^ 54"
  shows "rnd y < huge"
proof -
  have "rnd (of_int 1 * 2 powi 54) = of_int 1 * 2 powi 54" by (rule rnd_repr) simp_all
  then have r: "rnd (2 ^ 54) = 2 ^ 54" by simp
  have "rnd y \<le> rnd (2 ^ 54)" using assms by (rule rnd_mono)
  moreover have "(2::rat) ^ 54 < huge" by (simp add: huge_def)
  ultimately show ?thesis using r by linarith
qed

lemma round2_nonneg:
  assumes "0 \<le> z" "rnd z < huge"
  shows "\<bar>rnd (of_int (rhe (rnd z * 10 ^ 2)) / 10 ^ 2)\<bar> < huge"
proof (cases "2 ^ 53 \<le> rnd z")
  case True
  from rnd_large_int[OF assms(1) True] obtain n where n: "rnd z = of_int n" by blast
  have "rhe (of_int (n * 100)) = n * 100" by (rule rhe_of_int)
  then have "of_int (rhe (rnd z * 10 ^ 2)) / 10 ^ 2 = rnd z" by (simp add: n)
  then show ?thesis using assms rnd_nonneg[OF assms(1)] by (simp add: rnd_idem_all)
next
  case False
  define x where "x = rnd z"
  have x: "0 \<le> x" "x < 2 ^ 53" using False rnd_nonneg[OF assms(1)] by (simp_all add: x_def)
  define y where "y = (of_int (rhe (x * 10 ^ 2)) :: rat) / 10 ^ 2"
  have "0 \<le> x * 10 ^ 2" using x(1) by simp
  then have "of_int 0 \<le> x * 10 ^ 2" by simp
  then have "0 \<le> rhe (x * 10 ^ 2)" by (rule rhe_ge)
  then have y0: "0 \<le> y" by (simp add: y_def)
  have "of_int (rhe (x * 10 ^ 2)) \<le> x * 10 ^ 2 + 1 / 2"
    using rhe_err[of "x * 10 ^ 2"] by linarith
  then have "y \<le> x + 1 / 200" by (simp add: y_def field_simps)
  then have "y \<le> 2 ^ 54" using x(2) by simp
  with y0 have "rnd y < huge" by (rule rnd_bound_small)
  moreover have "0 \<le> rnd y" using y0 by (rule rnd_nonneg)
  ultimately show ?thesis by (simp add: y_def x_def)
qed

lemma float_round_total:
  assumes "x = rnd z" "\<bar>rnd z\<bar> < huge"
  shows "\<exists>y. float_round (Fin x) 2 = Inr (Fin y)"
proof -
  have a: "\<bar>rnd (of_int (rhe (rnd z * 10 ^ 2)) / 10 ^ 2)\<bar> < huge"
  proof (cases "0 \<le> z")
    case True
    then show ?thesis using assms(2) rnd_nonneg[OF True] by (intro round2_nonneg) simp_all
  next
    case False
    then have n: "0 \<le> - z" by simp
    have "rnd (- z) < huge" using assms(2) rnd_nonneg[OF n] by (simp add: rnd_minus)
    from round2_nonneg[OF n this]
    have "\<bar>rnd (of_int (rhe (- (rnd z * 10 ^ 2))) / 10 ^ 2)\<bar> < huge"
      by (simp add: rnd_minus)
    then have "\<bar>rnd (- (of_int (rhe (rnd z * 10 ^ 2)) / 10 ^ 2))\<bar> < huge"
      by (simp add: rhe_minus)
    then show ?thesis by (simp add: rnd_minus)
  qed
  show ?thesis unfolding assms(1) using round_double_Fin[OF a] by simp
qed

lemma fadd_FinD:
  assumes "fadd a b = Fin x"
  shows "\<exists>z. x = rnd z \<and> \<bar>rnd z\<bar> < huge"
proof (cases a)
  case a: (Fin u)
  show ?thesis
  proof (cases b)
    case (Fin v)
    with a assms have "round_double (u + v) = Fin x" by simp
    from round_double_FinD[OF this] show ?thesis by blast
  qed (use a assms in simp_all)
next
  case PInf
  with assms show ?thesis by (cases b) simp_all
next
  case NInf
  with assms show ?thesis by (cases b) simp_all
next
  case NaN
  with assms show ?thesis by simp
qed

lemma fmul_FinD:
  assumes "fmul a b = Fin x"
  shows "\<exists>z. x = rnd z \<and> \<bar>rnd z\<bar> < huge"
proof (cases a)
  case a: (Fin u)
  show ?thesis
  proof (cases b)
    case (Fin v)
    with a assms have "round_double (u * v) = Fin x" by simp
    from round_double_FinD[OF this] show ?thesis by blast
  qed (use a assms in \<open>simp_all split: if_splits\<close>)
next
  case PInf
  with assms show ?thesis by (cases b) (simp_all split: if_splits)
next
  case NInf
  with assms show ?thesis by (cases b) (simp_all split: if_splits)
next
  case NaN
  with assms show ?thesis by simp
qed

lemma py_round_final_total: "\<exists>fp. py_round (PyFloat (fadd a b)) 2 = Inr fp"
proof -
  have "\<exists>r. float_round (fadd a b) 2 = Inr r"
  proof (cases "fadd a b")
    case (Fin x)
    from fadd_FinD[OF this] obtain z where "x = rnd z" "\<bar>rnd z\<bar> < huge" by blast
    from float_round_total[OF this] obtain y where "float_round (Fin x) 2 = Inr (Fin y)"
      by blast
    then show ?thesis unfolding Fin by blast
  qed simp_all
  then show ?thesis by (auto simp: ebind_Inr)
qed

lemma py_round_margin_total:
  assumes "margin_expr p f = Inr pm"
  shows "\<exists>r. py_round pm 2 = Inr r"
proof (cases "fgt_int f 0")
  case True
  with assms obtain q where pm: "pm = PyFloat (fmul q (float_of_int 100))"
    by (auto simp: margin_expr_def dest!: ebind_InrD)
  have "\<exists>r. float_round (fmul q (float_of_int 100)) 2 = Inr r"
  proof (cases "fmul q (float_of_int 100)")
    case (Fin x)
    from fmul_FinD[OF this] obtain z where "x = rnd z" "\<bar>rnd z\<bar> < huge" by blast
    from float_round_total[OF this] obtain y where "float_round (Fin x) 2 = Inr (Fin y)"
      by blast
    then show ?thesis unfolding Fin by blast
  qed simp_all
  then show ?thesis by (auto simp: pm ebind_Inr)
next
  case False
  with assms have "pm = PyInt 0" by (simp add: margin_expr_def)
  then show ?thesis by simp
qed

lemma run_script_total:
  assumes "valid_input (pricing_input_of w)"
  shows "\<exists>st' b. run_script st w = (st', Inr b)"
proof -
  from pricing_valid[OF assms] obtain b where b: "pricing (pricing_input_of w) = Inr b"
    by blast
  show ?thesis
  proof (cases "save_button w")
    case False
    with b show ?thesis by (simp add: run_script_def)
  next
    case True
    from pricing_InrD[OF b]
    have f: "final_price b = fadd (price_after_discount b) (gst_amount b)"
      and m: "margin_expr (profit b) (final_price b) = Inr (profit_margin b)"
      by (auto simp: bd_g_def fin_g_def)
    obtain fp where fp: "py_round (PyFloat (final_price b)) 2 = Inr fp"
      unfolding f using py_round_final_total by blast
    obtain pm where pm: "py_round (profit_margin b) 2 = Inr pm"
      using py_round_margin_total[OF m] by blast
    have "\<exists>st2. save_recommendation (init_history st) w b = Inr st2"
      unfolding save_recommendation_def fp pm ebind_Inr
      by (simp add: history_append_Some[OF history_init])
    then obtain st2 where "save_recommendation (init_history st) w b = Inr st2" by blast
    with b True show ?thesis by (simp add: run_script_def)
  qed
qed




section \<open>The properties claimed of the script\<close>



text \<open>
  C2, as stated, fails: on the first input the pre-discount price is not 101.75 (which is
  a double) but the next double above it.
\<close>

theorem concrete_scenarios_counterexample:
  "pricing scenario1 = Inr scenario1_breakdown \<and>
   float_lit (10175 / 100) = Fin (10175 / 100) \<and>
   pre_gst_price scenario1_breakdown \<noteq> Fin (10175 / 100)"
  using scenario1_pricing float_lit_exact[OF _ is_double_101_75]
  by (simp add: scenario1_breakdown_def)

text \<open>
  C2, amended. On the two inputs the calculation returns the stated breakdown up to the
  rounding of double arithmetic. On the first input the demand factor, the stock factor
  and the tax amount are the doubles nearest to 1.1, 0.925 and 18.315, the discount amount
  is 0, the pre-discount price and the price after discount are \<open>101.75 + 2\<^sup>-\<^sup>4\<^sup>6\<close>, the
  final price and the profit are within \<open>10\<^sup>-\<^sup>1\<^sup>3\<close> of 120.065 and 70.065, and the profit
  margin is within 0.01 of 58.35. On the second input, which is what the Clearance Sale
  preset selects whatever the sliders show, every field is the double nearest to the
  stated decimal, except the profit, which is within \<open>10\<^sup>-\<^sup>1\<^sup>3\<close> of 33.056.
\<close>

theorem concrete_scenarios:
  "pricing scenario1 = Inr scenario1_breakdown \<and>
   demand_factor scenario1_breakdown = float_lit (110 / 100) \<and>
   stock_factor scenario1_breakdown = float_lit (925 / 1000) \<and>
   pre_gst_price scenario1_breakdown = Fin (10175 / 100 + 1 / 2 ^ 46) \<and>
   discount_amount scenario1_breakdown = Fin 0 \<and>
   price_after_discount scenario1_breakdown = Fin (10175 / 100 + 1 / 2 ^ 46) \<and>
   gst_amount scenario1_breakdown = float_lit (18315 / 1000) \<and>
   close_to (final_price scenario1_breakdown) (120065 / 1000) (1 / 10 ^ 13) \<and>
   close_to (profit scenario1_breakdown) (70065 / 1000) (1 / 10 ^ 13) \<and>
   close_to (float_of (profit_margin scenario1_breakdown)) (5835 / 100) (1 / 100) \<and>
   pricing (pricing_input_of clearance_widgets) = Inr scenario2_breakdown \<and>
   demand_factor scenario2_breakdown = float_lit (108 / 100) \<and>
   stock_factor scenario2_breakdown = float_lit (88 / 100) \<and>
   pre_gst_price scenario2_breakdown = float_lit (19008 / 100) \<and>
   discount_amount scenario2_breakdown = float_lit (57024 / 1000) \<and>
   price_after_discount scenario2_breakdown = float_lit (133056 / 1000) \<and>
   gst_amount scenario2_breakdown = Fin 0 \<and>
   final_price scenario2_breakdown = float_lit (133056 / 1000) \<and>
   close_to (profit scenario2_breakdown) (33056 / 1000) (1 / 10 ^ 13)"
proof -
  have l1: "float_lit (110 / 100) = Fin (2476979795053773 / 2251799813685248)"
    by (rule float_lit_eval) (code_simp, simp)
  have l2: "float_lit (925 / 1000) = Fin (4165829655317709 / 4503599627370496)"
    by (rule float_lit_eval) (code_simp, simp)
  have l3: "float_lit (18315 / 1000) = Fin (5155214198455665 / 281474976710656)"
    by (rule float_lit_eval) (code_simp, simp)
  have l4: "float_lit (108 / 100) = Fin (607985949695017 / 562949953421312)"
    by (rule float_lit_eval) (code_simp, simp)
  have l5: "float_lit (88 / 100) = Fin (7926335344172073 / 9007199254740992)"
    by (rule float_lit_eval) (code_simp, simp)
  have l6: "float_lit (19008 / 100) = Fin (6687845446645187 / 35184372088832)"
    by (rule float_lit_eval) (code_simp, simp)
  have l7: "float_lit (57024 / 1000) = Fin (501588408498389 / 8796093022208)"
    by (rule float_lit_eval) (code_simp, simp)
  have l8: "float_lit (133056 / 1000) = Fin (4681491812651631 / 35184372088832)"
    by (rule float_lit_eval) (code_simp, simp)
  have s1: "demand_factor scenario1_breakdown = float_lit (110 / 100)"
    "stock_factor scenario1_breakdown = float_lit (925 / 1000)"
    "gst_amount scenario1_breakdown = float_lit (18315 / 1000)"
    unfolding l1 l2 l3 by (simp_all add: scenario1_breakdown_def)
  have s1': "pre_gst_price scenario1_breakdown = Fin (10175 / 100 + 1 / 2 ^ 46)"
    "discount_amount scenario1_breakdown = Fin 0"
    "price_after_discount scenario1_breakdown = Fin (10175 / 100 + 1 / 2 ^ 46)"
    "close_to (final_price scenario1_breakdown) (120065 / 1000) (1 / 10 ^ 13)"
    "close_to (profit scenario1_breakdown) (70065 / 1000) (1 / 10 ^ 13)"
    "close_to (float_of (profit_margin scenario1_breakdown)) (5835 / 100) (1 / 100)"
    by (simp_all add: scenario1_breakdown_def)
  have s2: "demand_factor scenario2_breakdown = float_lit (108 / 100)"
    "stock_factor scenario2_breakdown = float_lit (88 / 100)"
    "pre_gst_price scenario2_breakdown = float_lit (19008 / 100)"
    "discount_amount scenario2_breakdown = float_lit (57024 / 1000)"
    "price_after_discount scenario2_breakdown = float_lit (133056 / 1000)"
    "final_price scenario2_breakdown = float_lit (133056 / 1000)"
    unfolding l4 l5 l6 l7 l8 by (simp_all add: scenario2_breakdown_def)
  have s2': "gst_amount scenario2_breakdown = Fin 0"
    "close_to (profit scenario2_breakdown) (33056 / 1000) (1 / 10 ^ 13)"
    by (simp_all add: scenario2_breakdown_def)
  have p2: "pricing (pricing_input_of clearance_widgets) = Inr scenario2_breakdown"
    unfolding clearance_input by (rule scenario2_pricing)
  from scenario1_pricing s1 s1' p2 s2 s2' show ?thesis by blast
qed

text \<open>
  C3. For every valid input, with all other inputs held fixed: a larger demand never gives
  a smaller pre-discount price, a larger stock never gives a larger one, and the seasonal
  increase never gives a smaller one. The comparison is \<^verbatim>\<open><=\<close> on floats.
\<close>

theorem pre_discount_price_monotone:
  assumes "valid_input inp"
    and "0 \<le> d1" "d1 \<le> d2" "d2 \<le> 100"
    and "0 \<le> s1" "s1 \<le> s2" "s2 \<le> 100"
  shows "\<exists>bd1 bd2 bs1 bs2 bf bt.
           pricing (inp\<lparr>demand := d1\<rparr>) = Inr bd1 \<and> pricing (inp\<lparr>demand := d2\<rparr>) = Inr bd2 \<and>
           fle (pre_gst_price bd1) (pre_gst_price bd2) \<and>
           pricing (inp\<lparr>stock := s1\<rparr>) = Inr bs1 \<and> pricing (inp\<lparr>stock := s2\<rparr>) = Inr bs2 \<and>
           fle (pre_gst_price bs2) (pre_gst_price bs1) \<and>
           pricing (inp\<lparr>seasonal := False\<rparr>) = Inr bf \<and>
           pricing (inp\<lparr>seasonal := True\<rparr>) = Inr bt \<and>
           fle (pre_gst_price bf) (pre_gst_price bt)"
proof -
  from assms(1) obtain c where c: "competitor_price inp = Fin c" "0 < c"
    by (rule valid_input_cp)
  from assms(1) have rng: "0 \<le> demand inp" "demand inp \<le> 100" "0 \<le> stock inp" "stock inp \<le> 100"
    by (simp_all add: valid_input_def in_range_def)
  have d1: "d1 \<le> 100" and d2: "0 \<le> d2" and s1: "s1 \<le> 100" and s2: "0 \<le> s2"
    using assms by simp_all
  obtain bd1 where bd1: "pricing (inp\<lparr>demand := d1\<rparr>) = Inr bd1"
      "pre_gst_price bd1 = pre_of (inp\<lparr>demand := d1\<rparr>)"
    using pricing_pre_of[OF valid_demand_update[OF assms(1,2) d1]] by blast
  obtain bd2 where bd2: "pricing (inp\<lparr>demand := d2\<rparr>) = Inr bd2"
      "pre_gst_price bd2 = pre_of (inp\<lparr>demand := d2\<rparr>)"
    using pricing_pre_of[OF valid_demand_update[OF assms(1) d2 assms(4)]] by blast
  obtain bs1 where bs1: "pricing (inp\<lparr>stock := s1\<rparr>) = Inr bs1"
      "pre_gst_price bs1 = pre_of (inp\<lparr>stock := s1\<rparr>)"
    using pricing_pre_of[OF valid_stock_update[OF assms(1,5) s1]] by blast
  obtain bs2 where bs2: "pricing (inp\<lparr>stock := s2\<rparr>) = Inr bs2"
      "pre_gst_price bs2 = pre_of (inp\<lparr>stock := s2\<rparr>)"
    using pricing_pre_of[OF valid_stock_update[OF assms(1) s2 assms(7)]] by blast
  obtain bf where bf: "pricing (inp\<lparr>seasonal := False\<rparr>) = Inr bf"
      "pre_gst_price bf = pre_of (inp\<lparr>seasonal := False\<rparr>)"
    using pricing_pre_of[OF valid_seasonal_update[OF assms(1)]] by blast
  obtain bt where bt: "pricing (inp\<lparr>seasonal := True\<rparr>) = Inr bt"
      "pre_gst_price bt = pre_of (inp\<lparr>seasonal := True\<rparr>)"
    using pricing_pre_of[OF valid_seasonal_update[OF assms(1)]] by blast
  have "fle (pre_gst_price bd1) (pre_gst_price bd2)"
    unfolding bd1(2) bd2(2) using c rng(3,4) assms(2-4) by (rule pre_of_demand_mono)
  moreover have "fle (pre_gst_price bs2) (pre_gst_price bs1)"
    unfolding bs1(2) bs2(2) using c rng(1,2) assms(5-7) by (rule pre_of_stock_antimono)
  moreover have "fle (pre_gst_price bf) (pre_gst_price bt)"
    unfolding bf(2) bt(2) using c rng by (rule pre_of_seasonal_mono)
  ultimately show ?thesis using bd1(1) bd2(1) bs1(1) bs2(1) bf(1) bt(1) by blast
qed

theorem pre_discount_price_monotone_witness:
  "valid_input scenario1 \<and> (0::int) \<le> 20 \<and> (20::int) \<le> 90 \<and> (90::int) \<le> 100 \<and>
   (0::int) \<le> 20 \<and> (20::int) \<le> 80 \<and> (80::int) \<le> 100 \<and>
   (\<exists>bd1 bd2 bs1 bs2 bf bt.
      pricing (scenario1\<lparr>demand := 20\<rparr>) = Inr bd1 \<and>
      pricing (scenario1\<lparr>demand := 90\<rparr>) = Inr bd2 \<and>
      fle (pre_gst_price bd1) (pre_gst_price bd2) \<and>
      pricing (scenario1\<lparr>stock := 20\<rparr>) = Inr bs1 \<and>
      pricing (scenario1\<lparr>stock := 80\<rparr>) = Inr bs2 \<and>
      fle (pre_gst_price bs2) (pre_gst_price bs1) \<and>
      pricing (scenario1\<lparr>seasonal := False\<rparr>) = Inr bf \<and>
      pricing (scenario1\<lparr>seasonal := True\<rparr>) = Inr bt \<and>
      fle (pre_gst_price bf) (pre_gst_price bt))"
  using pre_discount_price_monotone[OF valid_scenario1, of 20 90 20 80] valid_scenario1
  by simp

text \<open>
  C4. The tax rate of a breakdown is the table's entry for the category, the table maps the
  six categories to the doubles nearest to 0.00, 0.05, 0.05, 0.12, 0.18 and 0.28, and the
  tax amount is the price after discount times that rate.
\<close>

theorem tax_rate_table:
  shows "(valid_input inp \<longrightarrow> (\<exists>b'. pricing inp = Inr b')) \<and>
         (pricing inp = Inr b \<longrightarrow>
            dict_get gst_rates (category inp) = Inr (gst_rate b) \<and>
            gst_amount b = fmul (price_after_discount b) (gst_rate b)) \<and>
         map fst gst_rates =
           [''Essentials'', ''Food Items'', ''Apparel under '' @ rupee @ ''1,000'',
            ''Apparel above '' @ rupee @ ''1,000'', ''Electronics'', ''Luxury Goods''] \<and>
         dict_get gst_rates ''Essentials'' = Inr (float_lit 0) \<and>
         dict_get gst_rates ''Food Items'' = Inr (float_lit (5 / 100)) \<and>
         dict_get gst_rates (''Apparel under '' @ rupee @ ''1,000'') = Inr (float_lit (5 / 100)) \<and>
         dict_get gst_rates (''Apparel above '' @ rupee @ ''1,000'') = Inr (float_lit (12 / 100)) \<and>
         dict_get gst_rates ''Electronics'' = Inr (float_lit (18 / 100)) \<and>
         dict_get gst_rates ''Luxury Goods'' = Inr (float_lit (28 / 100))"
proof -
  have t: "valid_input inp \<longrightarrow> (\<exists>b'. pricing inp = Inr b')"
    using pricing_valid[of inp] by blast
  have l: "dict_get gst_rates (category inp) = Inr (gst_rate b) \<and>
           gst_amount b = fmul (price_after_discount b) (gst_rate b)"
    if "pricing inp = Inr b"
  proof -
    from pricing_InrD[OF that] obtain dq sq r cq pm where
      r: "dict_get gst_rates (category inp) = Inr r" and b: "b = bd_g inp dq sq r cq pm"
      by blast
    have "gst_rate b = r" "gst_amount b = fmul (price_after_discount b) (gst_rate b)"
      by (simp_all add: b bd_g_def)
    with r show ?thesis by simp
  qed
  from t l show ?thesis by (simp add: dict_get_def gst_rates_def rupee_def)
qed

theorem tax_rate_table_witness:
  "valid_input scenario1 \<and> pricing scenario1 = Inr scenario1_breakdown \<and>
   dict_get gst_rates (category scenario1) = Inr (gst_rate scenario1_breakdown) \<and>
   gst_amount scenario1_breakdown
     = fmul (price_after_discount scenario1_breakdown) (gst_rate scenario1_breakdown)"
  using tax_rate_table[of scenario1 scenario1_breakdown] scenario1_pricing valid_scenario1
  by simp

text \<open>
  C5. In every breakdown the calculation returns: if the final price is \<^verbatim>\<open><= 0\<close> the
  profit margin is the int 0, and if the final price is \<^verbatim>\<open>> 0\<close> the profit margin is
  the quotient of profit and final price, times 100. No run of the calculation ends in a
  \<^verbatim>\<open>ZeroDivisionError\<close>.
\<close>

theorem margin_guard:
  shows "(valid_input inp \<longrightarrow> (\<exists>b'. pricing inp = Inr b')) \<and>
         (pricing inp = Inr b \<longrightarrow>
            (fle_int (final_price b) 0 \<longrightarrow> profit_margin b = PyInt 0) \<and>
            (fgt_int (final_price b) 0 \<longrightarrow>
               (\<exists>q. py_truediv (profit b) (final_price b) = Inr q \<and>
                    profit_margin b = PyFloat (fmul q (float_of_int 100))))) \<and>
         pricing inp \<noteq> Inl ZeroDivisionError"
proof -
  have t: "valid_input inp \<longrightarrow> (\<exists>b'. pricing inp = Inr b')"
    using pricing_valid[of inp] by blast
  have g: "(fle_int (final_price b) 0 \<longrightarrow> profit_margin b = PyInt 0) \<and>
           (fgt_int (final_price b) 0 \<longrightarrow>
              (\<exists>q. py_truediv (profit b) (final_price b) = Inr q \<and>
                   profit_margin b = PyFloat (fmul q (float_of_int 100))))"
    if "pricing inp = Inr b"
  proof -
    from pricing_InrD[OF that]
    have "margin_expr (profit b) (final_price b) = Inr (profit_margin b)"
      by (auto simp: bd_g_def)
    then show ?thesis by (rule margin_expr_cases)
  qed
  from t g pricing_no_zero_division show ?thesis by blast
qed

theorem margin_guard_witness:
  "pricing zero_price_input = Inr zero_price_breakdown \<and>
   fle_int (final_price zero_price_breakdown) 0 \<and>
   profit_margin zero_price_breakdown = PyInt 0 \<and>
   pricing scenario1 = Inr scenario1_breakdown \<and>
   fgt_int (final_price scenario1_breakdown) 0 \<and>
   (\<exists>q. py_truediv (profit scenario1_breakdown) (final_price scenario1_breakdown) = Inr q \<and>
        profit_margin scenario1_breakdown = PyFloat (fmul q (float_of_int 100)))"
proof -
  have a: "fle_int (final_price zero_price_breakdown) 0"
    by (simp add: zero_price_breakdown_def)
  have b: "fgt_int (final_price scenario1_breakdown) 0"
    by (simp add: scenario1_breakdown_def)
  from margin_guard[of zero_price_input zero_price_breakdown]
    margin_guard[of scenario1 scenario1_breakdown] a b
    zero_price_pricing scenario1_pricing
  show ?thesis by blast
qed

text \<open>
  C6, as stated, fails where the pre-discount price overflows: a competitor price of
  \<open>7 * 2\<^sup>1\<^sup>0\<^sup>2\<^sup>1\<close> (about 1.57e308) with demand 100 is a valid input, the pre-discount price
  is \<^verbatim>\<open>inf\<close>, and with a discount of 0 the discount amount is \<^verbatim>\<open>inf * 0.0\<close>, a NaN.
\<close>

theorem zero_discount_counterexample:
  "valid_input overflow_input \<and> discount overflow_input = 0 \<and>
   pricing overflow_input = Inr overflow_breakdown \<and>
   discount_amount overflow_breakdown \<noteq> Fin 0 \<and>
   price_after_discount overflow_breakdown \<noteq> pre_gst_price overflow_breakdown"
  using valid_overflow_input overflow_pricing
  by (simp add: overflow_breakdown_def overflow_input_def)

text \<open>
  C6, amended. For every valid input with a discount of 0 whose pre-discount price is
  finite (has not overflowed), the discount amount is 0 and the price after discount is
  the pre-discount price.
\<close>

theorem zero_discount_boundary:
  assumes "valid_input inp" "discount inp = 0"
  shows "\<exists>b. pricing inp = Inr b \<and>
             (is_finite (pre_gst_price b) \<longrightarrow>
                discount_amount b = Fin 0 \<and> price_after_discount b = pre_gst_price b)"
proof -
  from pricing_valid[OF assms(1)] obtain b where b: "pricing inp = Inr b" by blast
  have "discount_amount b = Fin 0 \<and> price_after_discount b = pre_gst_price b"
    if "is_finite (pre_gst_price b)"
    using finite_chain[OF assms(1) b that] assms(2) by auto
  with b show ?thesis by blast
qed

theorem zero_discount_boundary_witness:
  "valid_input scenario1 \<and> discount scenario1 = 0 \<and>
   pricing scenario1 = Inr scenario1_breakdown \<and>
   is_finite (pre_gst_price scenario1_breakdown) \<and>
   discount_amount scenario1_breakdown = Fin 0 \<and>
   price_after_discount scenario1_breakdown = pre_gst_price scenario1_breakdown"
proof -
  have d: "discount scenario1 = 0" by (simp add: scenario1_def)
  have f: "is_finite (pre_gst_price scenario1_breakdown)"
    by (simp add: scenario1_breakdown_def)
  from zero_discount_boundary[OF valid_scenario1 d]
    valid_scenario1 d scenario1_pricing f
  show ?thesis by auto
qed

text \<open>
  C7, as stated, fails on the same overflowing input: its category is Essentials, the
  price after discount is a NaN, and so is the tax amount.
\<close>

theorem essentials_counterexample:
  "valid_input overflow_input \<and> category overflow_input = ''Essentials'' \<and>
   pricing overflow_input = Inr overflow_breakdown \<and>
   gst_amount overflow_breakdown \<noteq> Fin 0"
  using valid_overflow_input overflow_pricing
  by (simp add: overflow_breakdown_def overflow_input_def)

text \<open>
  C7, amended. For every valid input of category Essentials whose pre-discount price is
  finite (has not overflowed), the tax amount is 0 and the final price is the price after
  discount.
\<close>

theorem essentials_boundary:
  assumes "valid_input inp" "category inp = ''Essentials''"
  shows "\<exists>b. pricing inp = Inr b \<and>
             (is_finite (pre_gst_price b) \<longrightarrow>
                gst_amount b = Fin 0 \<and> final_price b = price_after_discount b)"
proof -
  from pricing_valid[OF assms(1)] obtain b where b: "pricing inp = Inr b" by blast
  have "gst_amount b = Fin 0 \<and> final_price b = price_after_discount b"
    if f: "is_finite (pre_gst_price b)"
  proof -
    from finite_chain[OF assms(1) b f] assms(2) obtain a where
      a: "price_after_discount b = Fin a" "tiny \<le> a" "is_double a"
        "gst_amount b = fmul (Fin a) (Fin 0)"
        "final_price b = fadd (Fin a) (fmul (Fin a) (Fin 0))"
      by auto
    from final_chain(2)[OF a(2,3), of 0] a(1,4,5) show ?thesis by (simp add: round_double_0)
  qed
  with b show ?thesis by blast
qed

theorem essentials_boundary_witness:
  "valid_input scenario2 \<and> category scenario2 = ''Essentials'' \<and>
   pricing scenario2 = Inr scenario2_breakdown \<and>
   is_finite (pre_gst_price scenario2_breakdown) \<and>
   gst_amount scenario2_breakdown = Fin 0 \<and>
   final_price scenario2_breakdown = price_after_discount scenario2_breakdown"
proof -
  have c: "category scenario2 = ''Essentials''" by (simp add: scenario2_def)
  have f: "is_finite (pre_gst_price scenario2_breakdown)"
    by (simp add: scenario2_breakdown_def)
  from essentials_boundary[OF valid_scenario2 c]
    valid_scenario2 c scenario2_pricing f
  show ?thesis by auto
qed

text \<open>
  C8. Appending to the history always succeeds once the script has initialised it, and
  reading it after three appends returns the prior contents followed by the three entries
  in the order of the appends. One run of the script leaves the prior contents in place
  and adds at most one entry, at the end; it adds exactly one when the input is valid and
  the recommendation is saved.
\<close>

theorem ledger_append_order:
  "ebind (history_append (init_history st) e1) (\<lambda>s1.
   ebind (history_append s1 e2) (\<lambda>s2.
   ebind (history_append s2 e3) history_read))
   = Inr (prior st @ [e1, e2, e3]) \<and>
   (\<exists>es. length es \<le> 1 \<and> history (fst (run_script st w)) = Some (prior st @ es)) \<and>
   (valid_input (pricing_input_of w) \<and> save_button w \<longrightarrow>
      (\<exists>e. history (fst (run_script st w)) = Some (prior st @ [e])))"
proof (intro conjI impI)
  show "ebind (history_append (init_history st) e1) (\<lambda>s1.
        ebind (history_append s1 e2) (\<lambda>s2.
        ebind (history_append s2 e3) history_read))
        = Inr (prior st @ [e1, e2, e3])"
    by (simp add: history_append_def history_init ebind_Inr history_read_def)
  show "\<exists>es. length es \<le> 1 \<and> history (fst (run_script st w)) = Some (prior st @ es)"
  proof (cases "pricing (pricing_input_of w)")
    case (Inl e)
    then have "history (fst (run_script st w)) = Some (prior st @ [])"
      by (simp add: run_script_def history_init)
    then show ?thesis by (intro exI[of _ "[]"]) simp
  next
    case (Inr b)
    show ?thesis
    proof (cases "save_button w")
      case False
      with Inr have "history (fst (run_script st w)) = Some (prior st @ [])"
        by (simp add: run_script_def history_init)
      then show ?thesis by (intro exI[of _ "[]"]) simp
    next
      case True
      show ?thesis
      proof (cases "save_recommendation (init_history st) w b")
        case (Inl e)
        with Inr True have "history (fst (run_script st w)) = Some (prior st @ [])"
          by (simp add: run_script_def history_init)
        then show ?thesis by (intro exI[of _ "[]"]) simp
      next
        case st2: (Inr st2)
        then obtain e where "history_append (init_history st) e = Inr st2"
          by (auto simp: save_recommendation_def dest!: ebind_InrD)
        then have "history st2 = Some (prior st @ [e])"
          by (auto simp: history_append_Some[OF history_init])
        with Inr True st2 have "history (fst (run_script st w)) = Some (prior st @ [e])"
          by (simp add: run_script_def)
        then show ?thesis by (intro exI[of _ "[e]"]) simp
      qed
    qed
  qed
  show "\<exists>e. history (fst (run_script st w)) = Some (prior st @ [e])"
    if v: "valid_input (pricing_input_of w) \<and> save_button w"
  proof -
    from v run_script_total[of w st] obtain st' b where r: "run_script st w = (st', Inr b)"
      by blast
    from run_script_InrD(2)[OF r] v have "save_recommendation (init_history st) w b = Inr st'"
      by blast
    then obtain e where "history_append (init_history st) e = Inr st'"
      by (auto simp: save_recommendation_def dest!: ebind_InrD)
    then have "history st' = Some (prior st @ [e])"
      by (auto simp: history_append_Some[OF history_init])
    with r show ?thesis by auto
  qed
qed

theorem ledger_append_order_witness:
  "valid_input (pricing_input_of scenario1_widgets) \<and> save_button scenario1_widgets \<and>
   history (fst (run_script \<lparr>history = None\<rparr> scenario1_widgets))
     = Some (prior \<lparr>history = None\<rparr> @ [scenario1_entry])"
proof -
  have v: "valid_input (pricing_input_of scenario1_widgets)"
    unfolding scenario1_widgets_input by (rule valid_scenario1)
  have s: "save_button scenario1_widgets" by (simp add: scenario1_widgets_def)
  from ledger_append_order[of "\<lparr>history = None\<rparr>" _ _ _ scenario1_widgets] v s
  show ?thesis by (simp add: scenario1_run prior_def)
qed



text \<open>
  C10, as stated, fails on the overflowing input: the final price is a NaN, the test
  \<^verbatim>\<open>final_price > 0\<close> is false, and the else-branch sets the profit margin to 0.
\<close>

theorem final_price_positive_counterexample:
  "valid_input overflow_input \<and> pricing overflow_input = Inr overflow_breakdown \<and>
   \<not> fgt_int (final_price overflow_breakdown) 0 \<and>
   profit_margin overflow_breakdown = PyInt 0"
  using valid_overflow_input overflow_pricing by (simp add: overflow_breakdown_def)

text \<open>
  C10, amended. For every valid input whose pre-discount price is finite (has not
  overflowed), the final price is \<^verbatim>\<open>> 0\<close>, so the profit margin is computed by the
  division and is a float; and for every valid input the demand factor lies between 1 and
  1.2, the stock factor between 0.85 and 1, the seasonal factor is 1 or 1.1, the discount
  fraction lies between 0 and 0.5 and the tax rate between 0 and 0.28, the bounds being the
  doubles nearest to these decimals.
\<close>

theorem final_price_positive:
  assumes "valid_input inp"
  shows "\<exists>b. pricing inp = Inr b \<and>
         (is_finite (pre_gst_price b) \<longrightarrow>
            fgt_int (final_price b) 0 \<and> (\<exists>m. profit_margin b = PyFloat m)) \<and>
         fle (Fin 1) (demand_factor b) \<and> fle (demand_factor b) (float_lit (12 / 10)) \<and>
         fle (float_lit (85 / 100)) (stock_factor b) \<and> fle (stock_factor b) (Fin 1) \<and>
         (seasonal_factor b = PyInt 1 \<or> seasonal_factor b = PyFloat (float_lit (11 / 10))) \<and>
         (\<exists>q. int_truediv (discount inp) 100 = Inr q \<and> fle (Fin 0) q \<and>
              fle q (float_lit (5 / 10))) \<and>
         fle (Fin 0) (gst_rate b) \<and> fle (gst_rate b) (float_lit (28 / 100))"
proof -
  from pricing_valid[OF assms(1)] obtain r pm where
    r: "(category inp, r) \<in> set gst_rates" and p: "pricing inp = Inr (bd_of inp r pm)"
    by blast
  define b where "b = bd_of inp r pm"
  have pb: "pricing inp = Inr b" using p by (simp add: b_def)
  have pos: "fgt_int (final_price b) 0 \<and> (\<exists>m. profit_margin b = PyFloat m)"
    if f: "is_finite (pre_gst_price b)"
  proof -
    from finite_chain[OF assms pb f] obtain t a where
      ch: "0 \<le> t" "tiny \<le> a" "is_double a"
        "final_price b = fadd (Fin a) (fmul (Fin a) (Fin t))"
        "margin_expr (profit b) (final_price b) = Inr (profit_margin b)"
      by blast
    have gt: "fgt_int (final_price b) 0" unfolding ch(4) using ch(2,3,1) by (rule final_chain)
    from margin_expr_cases[OF ch(5)] gt show ?thesis by blast
  qed
  from assms(1) have rng: "in_range inp" by (simp add: valid_input_def)
  note fb = factor_bounds[OF rng]
  have f: "demand_factor b = Fin (dfr (demand inp))" "stock_factor b = Fin (sfr (stock inp))"
    "seasonal_factor b = PyInt 1 \<or> seasonal_factor b = PyFloat (float_lit (11 / 10))"
    "gst_rate b = r"
    by (simp_all add: b_def bd_of_def)
  have q: "\<exists>q. int_truediv (discount inp) 100 = Inr q \<and> fle (Fin 0) q \<and>
              fle q (float_lit (5 / 10))"
    using fb(5,6,7) by blast
  have "(is_finite (pre_gst_price b) \<longrightarrow>
            fgt_int (final_price b) 0 \<and> (\<exists>m. profit_margin b = PyFloat m)) \<and>
         fle (Fin 1) (demand_factor b) \<and> fle (demand_factor b) (float_lit (12 / 10)) \<and>
         fle (float_lit (85 / 100)) (stock_factor b) \<and> fle (stock_factor b) (Fin 1) \<and>
         (seasonal_factor b = PyInt 1 \<or> seasonal_factor b = PyFloat (float_lit (11 / 10))) \<and>
         (\<exists>q. int_truediv (discount inp) 100 = Inr q \<and> fle (Fin 0) q \<and>
              fle q (float_lit (5 / 10))) \<and>
         fle (Fin 0) (gst_rate b) \<and> fle (gst_rate b) (float_lit (28 / 100))"
    using pos fb(1-4) f(3) q gst_rates_le[OF r] unfolding f(1,2,4) by blast
  with pb show ?thesis by blast
qed

theorem final_price_positive_witness:
  "valid_input scenario1 \<and> pricing scenario1 = Inr scenario1_breakdown \<and>
   is_finite (pre_gst_price scenario1_breakdown) \<and>
   fgt_int (final_price scenario1_breakdown) 0 \<and>
   (\<exists>m. profit_margin scenario1_breakdown = PyFloat m)"
proof -
  have f: "is_finite (pre_gst_price scenario1_breakdown)"
    by (simp add: scenario1_breakdown_def)
  from final_price_positive[OF valid_scenario1]
    valid_scenario1 scenario1_pricing f
  show ?thesis by auto
qed

end
